theory Spec2Isabelle
  imports Main
begin

section \<open>Values: timestamps, errors, rows, responses\<close>

text \<open>
  The backend is \<^verbatim>\<open>src/backend/server.js\<close>: Express handlers over a PostgreSQL pool.
  A timestamp is the number of milliseconds a JavaScript \<^verbatim>\<open>Date\<close> holds; the rows
  returned by the driver carry \<^verbatim>\<open>TIMESTAMP\<close> columns as such dates.
\<close>

type_synonym timestamp = int

text \<open>
  An exception object. The handlers only ever read its \<^verbatim>\<open>code\<close> property
  (\<^verbatim>\<open>error.code === '23505'\<close>), which database errors carry and other errors lack.
\<close>

datatype js_error = JsError (err_code: "string option")

definition unique_violation :: js_error where
  "unique_violation = JsError (Some ''23505'')"

record user_row =
  u_id :: nat
  u_email :: string
  u_password_hash :: string
  u_created_at :: timestamp

record invitation =
  i_id :: nat
  i_code :: string
  i_email :: string
  i_used :: bool
  i_used_by :: "nat option"
  i_created_at :: timestamp
  i_used_at :: "timestamp option"
  i_expires_at :: "timestamp option"

record plaid_item =
  p_id :: nat
  p_user_id :: "nat option"
  p_access_token :: string
  p_item_id :: string
  p_created_at :: timestamp

text \<open>
  The three tables the handlers touch (\<^verbatim>\<open>portfolios\<close> and \<^verbatim>\<open>holdings\<close> are created
  by \<^verbatim>\<open>createTables\<close> and never read or written). A database adds the counters behind
  the \<^verbatim>\<open>SERIAL\<close> keys, which a rolled back transaction does not give back.
\<close>

record tables =
  users :: "user_row list"
  invitation_codes :: "invitation list"
  plaid_items :: "plaid_item list"

record db = tables +
  users_id_seq :: nat
  invitation_codes_id_seq :: nat
  plaid_items_id_seq :: nat

definition createTables :: db where
  "createTables =
     \<lparr>users = [], invitation_codes = [], plaid_items = [],
      users_id_seq = 1, invitation_codes_id_seq = 1, plaid_items_id_seq = 1\<rparr>"

section \<open>Session tokens\<close>

text \<open>
  Modelled from the spec: \<^verbatim>\<open>jwt.sign\<close> and \<^verbatim>\<open>jwt.verify\<close> belong to the
  \<^verbatim>\<open>jsonwebtoken\<close> package, which is not under \<^verbatim>\<open>src/\<close>. The spec's Session Issuer
  "produces a signed, time-bounded token encoding user id and email" and "rejects absent,
  malformed/unsigned, or expired tokens". A token is the payload together with the key
  that signed it; the payload records when it was issued and when it expires.
\<close>

record jwt_payload =
  userId :: nat
  payload_email :: string
  iat :: timestamp
  exp :: timestamp

datatype jwt = Jwt (signed_with: string) (payload: jwt_payload)

datatype jwt_error = JsonWebTokenError | TokenExpiredError

definition jwt_sign ::
  "nat \<Rightarrow> string \<Rightarrow> string \<Rightarrow> int \<Rightarrow> timestamp \<Rightarrow> jwt" where
  "jwt_sign uid em secret expiresIn now =
     Jwt secret \<lparr>userId = uid, payload_email = em, iat = now, exp = now + expiresIn\<rparr>"

definition jwt_verify ::
  "jwt \<Rightarrow> string \<Rightarrow> timestamp \<Rightarrow> jwt_error + jwt_payload" where
  "jwt_verify t secret now =
     (if signed_with t \<noteq> secret then Inl JsonWebTokenError
      else if exp (payload t) \<le> now then Inl TokenExpiredError
      else Inr (payload t))"

text \<open>\<^verbatim>\<open>expiresIn: '7d'\<close>, in milliseconds.\<close>

definition seven_days :: int where
  "seven_days = 7 * 24 * 60 * 60 * 1000"

text \<open>\<^verbatim>\<open>process.env\<close>, as far as the handlers read it.\<close>

record config =
  JWT_SECRET :: string
  ADMIN_KEY :: "string option"

text \<open>
  \<^verbatim>\<open>jwt.sign({ userId: userId, email }, process.env.JWT_SECRET, { expiresIn: '7d' })\<close>,
  as \<^verbatim>\<open>/api/register\<close> and \<^verbatim>\<open>/api/login\<close> call it, and
  \<^verbatim>\<open>jwt.verify(token, process.env.JWT_SECRET, ...)\<close>, as \<^verbatim>\<open>authenticateToken\<close> does.
\<close>

definition issue_token ::
  "config \<Rightarrow> timestamp \<Rightarrow> nat \<Rightarrow> string \<Rightarrow> jwt" where
  "issue_token cfg now uid em = jwt_sign uid em (JWT_SECRET cfg) seven_days now"

definition verify_token ::
  "config \<Rightarrow> timestamp \<Rightarrow> jwt \<Rightarrow> jwt_error + jwt_payload" where
  "verify_token cfg now t = jwt_verify t (JWT_SECRET cfg) now"

text \<open>
  The call of \<^verbatim>\<open>jwt.sign\<close> as a statement of the handler, which can throw. The package
  throws (\<^verbatim>\<open>secretOrPrivateKey must have a value\<close>, an error without a \<^verbatim>\<open>code\<close>) when the
  key it is given is falsy, and returns the token otherwise. An unset \<^verbatim>\<open>JWT_SECRET\<close> is
  the empty string of \<open>config\<close>: both are falsy. \<open>issue_token\<close> is the token the call
  returns when it returns.
\<close>

definition sign_token ::
  "config \<Rightarrow> timestamp \<Rightarrow> nat \<Rightarrow> string \<Rightarrow> js_error + jwt" where
  "sign_token cfg now uid em =
     (if JWT_SECRET cfg = [] then Inl (JsError None) else Inr (issue_token cfg now uid em))"

section \<open>Responses\<close>

text \<open>An account as the aggregator returns it; \<^verbatim>\<open>subtype\<close> may be \<^verbatim>\<open>null\<close>.\<close>

record account =
  account_id :: string
  account_name :: string
  subtype :: "string option"

text \<open>The counts of the admin listing.\<close>

record stats =
  total :: nat
  used_count :: nat
  available :: nat
  expired_count :: nat

text \<open>
  What \<^verbatim>\<open>res.status(n).json(v)\<close> sends; \<^verbatim>\<open>res.json(v)\<close> sends status 200. The bodies, in
  the order of the constructors: \<^verbatim>\<open>{error}\<close>; \<^verbatim>\<open>{valid: false, error}\<close>;
  \<^verbatim>\<open>{valid: true, message, emailDomain}\<close>; \<^verbatim>\<open>{message, token, user: {id, email}}\<close>;
  \<^verbatim>\<open>{message, invitation}\<close>; \<^verbatim>\<open>{invitations, stats}\<close>, each listed row with its computed
  \<^verbatim>\<open>expired\<close> column; the array of accounts; \<^verbatim>\<open>{success: true}\<close>.
\<close>

datatype json =
    ErrorMsg string
  | NotValid string
  | Valid string "string option"
  | Registered string jwt nat string
  | Created string invitation
  | Invitations "(invitation \<times> bool) list" stats
  | Accounts "account list"
  | Success

datatype response = Response (status: nat) (body: json)

text \<open>
  What a handler reads from the outside world during one request: the clock
  (\<^verbatim>\<open>new Date()\<close>, \<^verbatim>\<open>NOW()\<close>) and, for every awaited call that can reject, whether it
  does. A fault stands for any failure the database or a library raises on its own
  (a lost connection, a value too long for its column); the unique constraints are
  part of the model and raise from the state. The aggregator's answers
  (\<^verbatim>\<open>plaidClient.accountsGet\<close>, \<^verbatim>\<open>plaidClient.itemPublicTokenExchange\<close>) and the
  outcome of \<^verbatim>\<open>bcrypt.hash\<close> come from outside as well.
\<close>

record env =
  clock :: timestamp
  q_select :: "js_error option"
  q_connect :: "js_error option"
  q_begin :: "js_error option"
  q_insert :: "js_error option"
  q_update :: "js_error option"
  q_commit :: "js_error option"
  q_rollback :: "js_error option"
  bcrypt_hash :: "string option \<Rightarrow> nat \<Rightarrow> js_error + string"
  accountsGet :: "string \<Rightarrow> js_error + account list"
  itemPublicTokenExchange :: "string option \<Rightarrow> js_error + string \<times> string"

section \<open>JavaScript helpers\<close>

text \<open>\<^verbatim>\<open>!v\<close> for a value that is a string or \<^verbatim>\<open>undefined\<close>.\<close>

definition falsy :: "string option \<Rightarrow> bool" where
  "falsy v = (case v of None \<Rightarrow> True | Some s \<Rightarrow> s = [])"

text \<open>\<^verbatim>\<open>s.split(c)\<close> for a one-character separator: \<^verbatim>\<open>''.split(c)\<close> is \<^verbatim>\<open>['']\<close>.\<close>

fun js_split :: "char \<Rightarrow> string \<Rightarrow> string list" where
  "js_split c [] = [[]]"
| "js_split c (x # xs) =
     (if x = c then [] # js_split c xs
      else (case js_split c xs of [] \<Rightarrow> [[x]] | w # ws \<Rightarrow> (x # w) # ws))"

text \<open>\<^verbatim>\<open>a[i]\<close>: \<^verbatim>\<open>undefined\<close> past the end.\<close>

definition at_index :: "'a list \<Rightarrow> nat \<Rightarrow> 'a option" where
  "at_index xs i = (if i < length xs then Some (xs ! i) else None)"

section \<open>Invitation checks\<close>

text \<open>
  \<^verbatim>\<open>invitation.expires_at && new Date() > new Date(invitation.expires_at)\<close>, the test
  both \<^verbatim>\<open>validateInvitation\<close> and \<^verbatim>\<open>/api/verify-invitation\<close> apply.
\<close>

definition expired :: "timestamp \<Rightarrow> invitation \<Rightarrow> bool" where
  "expired now row = (case i_expires_at row of None \<Rightarrow> False | Some t \<Rightarrow> now > t)"

text \<open>\<^verbatim>\<open>SELECT * FROM invitation_codes WHERE code = $1\<close>\<close>

definition select_invitation ::
  "string \<Rightarrow> 'a tables_scheme \<Rightarrow> invitation list" where
  "select_invitation c t = filter (\<lambda>r. i_code r = c) (invitation_codes t)"

text \<open>
  The first row with the code, if there is one: \<^verbatim>\<open>result.rows[0]\<close> of that query, and the
  \<open>lookup\<close> of the spec's Invitation Ledger (an exact string match).
\<close>

definition lookup :: "string \<Rightarrow> 'a tables_scheme \<Rightarrow> invitation option" where
  "lookup c d = find (\<lambda>row. i_code row = c) (invitation_codes d)"

record register_body =
  email :: "string option"
  password :: "string option"
  invitationCode :: "string option"

text \<open>
  The middleware \<^verbatim>\<open>validateInvitation\<close>: \<open>Inl\<close> is the response it sends itself,
  \<open>Inr\<close> the row it stores in \<^verbatim>\<open>req.invitation\<close> before calling \<^verbatim>\<open>next()\<close>.
\<close>

definition validateInvitation ::
  "env \<Rightarrow> 'a tables_scheme \<Rightarrow> string option \<Rightarrow> response + invitation" where
  "validateInvitation e d code =
     (if falsy code then Inl (Response 400 (ErrorMsg ''Invitation code required''))
      else (case q_select e of
          Some err \<Rightarrow> Inl (Response 500 (ErrorMsg ''Failed to validate invitation''))
        | None \<Rightarrow>
           (case select_invitation (the code) d of
              [] \<Rightarrow> Inl (Response 400 (ErrorMsg ''Invalid invitation code''))
            | row # rest \<Rightarrow>
                if i_used row then Inl (Response 400 (ErrorMsg ''Invitation code already used''))
                else if expired (clock e) row
                  then Inl (Response 400 (ErrorMsg ''Invitation code has expired''))
                else Inr row)))"

text \<open>The handler of \<^verbatim>\<open>POST /api/verify-invitation\<close>.\<close>

definition verify_invitation ::
  "env \<Rightarrow> 'a tables_scheme \<Rightarrow> string option \<Rightarrow> response" where
  "verify_invitation e d code =
     (if falsy code then Response 400 (ErrorMsg ''Invitation code required'')
      else (case q_select e of
          Some err \<Rightarrow> Response 500 (ErrorMsg ''Failed to verify invitation'')
        | None \<Rightarrow>
           (case select_invitation (the code) d of
              [] \<Rightarrow> Response 404 (NotValid ''Invalid invitation code'')
            | row # rest \<Rightarrow>
                if i_used row then Response 409 (NotValid ''Invitation code already used'')
                else if expired (clock e) row
                  then Response 410 (NotValid ''Invitation code has expired'')
                else Response 200
                  (Valid ''Invitation code is valid'' (at_index (js_split CHR ''@'' (i_email row)) 1)))))"

section \<open>A pooled connection and its transaction\<close>

text \<open>
  \<^verbatim>\<open>pool.connect()\<close> hands out a client. Between \<^verbatim>\<open>BEGIN\<close> and \<^verbatim>\<open>COMMIT\<close> its
  statements read and write a private copy of the tables, which \<^verbatim>\<open>COMMIT\<close> installs
  and \<^verbatim>\<open>ROLLBACK\<close> drops; outside a transaction every statement commits by itself.
  Each statement returns the client's new state and either the error it throws or its
  result.
\<close>

record conn =
  c_db :: db
  c_tx :: "tables option"

definition snapshot :: "db \<Rightarrow> tables" where
  "snapshot d =
     \<lparr>users = users d, invitation_codes = invitation_codes d, plaid_items = plaid_items d\<rparr>"

definition install :: "tables \<Rightarrow> db \<Rightarrow> db" where
  "install t d =
     d\<lparr>users := users t, invitation_codes := invitation_codes t, plaid_items := plaid_items t\<rparr>"

definition visible :: "conn \<Rightarrow> tables" where
  "visible c = (case c_tx c of Some t \<Rightarrow> t | None \<Rightarrow> snapshot (c_db c))"

definition write_tables :: "tables \<Rightarrow> conn \<Rightarrow> conn" where
  "write_tables t c =
     (case c_tx c of
        Some old \<Rightarrow> c\<lparr>c_tx := Some t\<rparr>
      | None \<Rightarrow> c\<lparr>c_db := install t (c_db c)\<rparr>)"

text \<open>\<^verbatim>\<open>client.query('BEGIN')\<close>\<close>

definition client_begin ::
  "env \<Rightarrow> conn \<Rightarrow> conn \<times> (js_error + unit)" where
  "client_begin e c =
     (case q_begin e of
        Some err \<Rightarrow> (c, Inl err)
      | None \<Rightarrow> (c\<lparr>c_tx := Some (snapshot (c_db c))\<rparr>, Inr ()))"

text \<open>
  \<^verbatim>\<open>INSERT INTO users (email, password_hash, created_at) VALUES ($1, $2, NOW())
  RETURNING id, email\<close>: the id comes from the sequence, and \<^verbatim>\<open>email\<close> is
  \<^verbatim>\<open>UNIQUE\<close>.
\<close>

definition insert_user ::
  "env \<Rightarrow> string \<Rightarrow> string \<Rightarrow> conn \<Rightarrow> conn \<times> (js_error + nat)" where
  "insert_user e em ph c =
     (case q_insert e of
        Some err \<Rightarrow> (c, Inl err)
      | None \<Rightarrow>
          (let uid = users_id_seq (c_db c);
               c1 = c\<lparr>c_db := (c_db c)\<lparr>users_id_seq := uid + 1\<rparr>\<rparr>;
               t = visible c1
           in if \<exists>u \<in> set (users t). u_email u = em then (c1, Inl unique_violation)
              else (write_tables
                      (t\<lparr>users := users t @
                          [\<lparr>u_id = uid, u_email = em, u_password_hash = ph,
                            u_created_at = clock e\<rparr>]\<rparr>) c1,
                    Inr uid)))"

text \<open>
  \<^verbatim>\<open>UPDATE invitation_codes SET used = TRUE, used_by = $1, used_at = NOW()
  WHERE id = $2\<close>
\<close>

definition mark_used ::
  "nat \<Rightarrow> timestamp \<Rightarrow> invitation \<Rightarrow> invitation" where
  "mark_used uid now row = row\<lparr>i_used := True, i_used_by := Some uid, i_used_at := Some now\<rparr>"

definition update_invitation ::
  "env \<Rightarrow> nat \<Rightarrow> nat \<Rightarrow> conn \<Rightarrow> conn \<times> (js_error + unit)" where
  "update_invitation e uid iid c =
     (case q_update e of
        Some err \<Rightarrow> (c, Inl err)
      | None \<Rightarrow>
          (let t = visible c
           in (write_tables
                 (t\<lparr>invitation_codes :=
                      map (\<lambda>row. if i_id row = iid then mark_used uid (clock e) row else row)
                        (invitation_codes t)\<rparr>) c,
               Inr ())))"

text \<open>\<^verbatim>\<open>client.query('COMMIT')\<close>\<close>

definition client_commit ::
  "env \<Rightarrow> conn \<Rightarrow> conn \<times> (js_error + unit)" where
  "client_commit e c =
     (case q_commit e of
        Some err \<Rightarrow> (c, Inl err)
      | None \<Rightarrow>
          (case c_tx c of
             Some t \<Rightarrow> (c\<lparr>c_db := install t (c_db c), c_tx := None\<rparr>, Inr ())
           | None \<Rightarrow> (c, Inr ())))"

text \<open>
  \<^verbatim>\<open>client.query('ROLLBACK')\<close>. When the statement itself fails the connection is
  gone, and the server drops the open transaction with it.
\<close>

definition client_rollback ::
  "env \<Rightarrow> conn \<Rightarrow> conn \<times> (js_error + unit)" where
  "client_rollback e c =
     (c\<lparr>c_tx := None\<rparr>, (case q_rollback e of Some err \<Rightarrow> Inl err | None \<Rightarrow> Inr ()))"

section \<open>Registration\<close>

text \<open>
  The inner \<^verbatim>\<open>try\<close> block of \<^verbatim>\<open>POST /api/register\<close>, from \<^verbatim>\<open>BEGIN\<close> to the 201
  response. The first statement that throws ends it: \<^verbatim>\<open>jwt.sign\<close> is the last one that
  can, and it runs after \<^verbatim>\<open>COMMIT\<close>. \<^verbatim>\<open>client.release()\<close> in the \<^verbatim>\<open>finally\<close> block
  changes nothing the model holds.
\<close>

definition register_try ::
  "config \<Rightarrow> env \<Rightarrow> string \<Rightarrow> string \<Rightarrow> invitation \<Rightarrow> conn \<Rightarrow> conn \<times> (js_error + response)" where
  "register_try cfg e em hashedPassword invitation c0 =
     (case client_begin e c0 of
        (c1, Inl err) \<Rightarrow> (c1, Inl err)
      | (c1, Inr u1) \<Rightarrow>
     (case insert_user e em hashedPassword c1 of
        (c2, Inl err) \<Rightarrow> (c2, Inl err)
      | (c2, Inr uid) \<Rightarrow>
     (case update_invitation e uid (i_id invitation) c2 of
        (c3, Inl err) \<Rightarrow> (c3, Inl err)
      | (c3, Inr u3) \<Rightarrow>
     (case client_commit e c3 of
        (c4, Inl err) \<Rightarrow> (c4, Inl err)
      | (c4, Inr u4) \<Rightarrow>
     (case sign_token cfg (clock e) uid em of
        Inl err \<Rightarrow> (c4, Inl err)
      | Inr token \<Rightarrow>
          (c4, Inr (Response 201
             (Registered ''Registration successful'' token uid em))))))))"

text \<open>The outer \<^verbatim>\<open>catch\<close> of the handler.\<close>

definition register_catch :: "js_error \<Rightarrow> response" where
  "register_catch error =
     (if err_code error = Some ''23505'' then Response 400 (ErrorMsg ''Email already registered'')
      else Response 500 (ErrorMsg ''Registration failed''))"

text \<open>
  The handler of \<^verbatim>\<open>POST /api/register\<close>, entered with the row that
  \<^verbatim>\<open>validateInvitation\<close> left in \<^verbatim>\<open>req.invitation\<close>. It returns the database it
  leaves behind and the response.
\<close>

definition register_handler ::
  "config \<Rightarrow> env \<Rightarrow> db \<Rightarrow> register_body \<Rightarrow> invitation \<Rightarrow> db \<times> response" where
  "register_handler cfg e d b invitation =
     (case email b of
        None \<Rightarrow> (d, Response 400 (ErrorMsg ''Email does not match invitation''))
      | Some em \<Rightarrow>
         if em \<noteq> i_email invitation
           then (d, Response 400 (ErrorMsg ''Email does not match invitation''))
         else (case bcrypt_hash e (password b) 12 of
             Inl err \<Rightarrow> (d, register_catch err)
           | Inr hashedPassword \<Rightarrow>
              (case q_connect e of
                 Some err \<Rightarrow> (d, register_catch err)
               | None \<Rightarrow>
                  (case register_try cfg e em hashedPassword invitation
                          \<lparr>c_db = d, c_tx = None\<rparr> of
                     (c, Inr res) \<Rightarrow> (c_db c, res)
                   | (c, Inl error) \<Rightarrow>
                      (case client_rollback e c of
                         (c', Inl err') \<Rightarrow> (c_db c', register_catch err')
                       | (c', Inr u) \<Rightarrow> (c_db c', register_catch error))))))"

text \<open>
  The ways in which the handler ends before \<^verbatim>\<open>COMMIT\<close> has run, in the order of the
  code: the email differs from the invitation's, \<^verbatim>\<open>bcrypt.hash\<close> throws,
  \<^verbatim>\<open>pool.connect()\<close> fails, \<^verbatim>\<open>BEGIN\<close> fails, the \<^verbatim>\<open>INSERT\<close> fails by itself or on the
  unique email, the \<^verbatim>\<open>UPDATE\<close> fails, \<^verbatim>\<open>COMMIT\<close> fails. What is left is the failure of
  \<^verbatim>\<open>jwt.sign\<close>, after \<^verbatim>\<open>COMMIT\<close>.
\<close>

definition stops_early :: "env \<Rightarrow> db \<Rightarrow> register_body \<Rightarrow> invitation \<Rightarrow> bool" where
  "stops_early e d b row \<longleftrightarrow>
     email b \<noteq> Some (i_email row) \<or> isl (bcrypt_hash e (password b) 12)
     \<or> q_connect e \<noteq> None \<or> q_begin e \<noteq> None \<or> q_insert e \<noteq> None
     \<or> (\<exists>u \<in> set (users d). u_email u = i_email row)
     \<or> q_update e \<noteq> None \<or> q_commit e \<noteq> None"

text \<open>The whole route: the middleware, then the handler.\<close>

definition register ::
  "config \<Rightarrow> env \<Rightarrow> db \<Rightarrow> register_body \<Rightarrow> db \<times> response" where
  "register cfg e d b =
     (case validateInvitation e d (invitationCode b) of
        Inl res \<Rightarrow> (d, res)
      | Inr invitation \<Rightarrow> register_handler cfg e d b invitation)"

section \<open>Bearer tokens\<close>

text \<open>
  The middleware \<^verbatim>\<open>authenticateToken\<close>. \<open>wire\<close> reads a token's text: \<open>None\<close> when
  the text is no token at all. \<open>Inl\<close> is the response the middleware sends itself,
  \<open>Inr\<close> the payload it stores in \<^verbatim>\<open>req.user\<close> before calling \<^verbatim>\<open>next()\<close>.
\<close>

definition bearer :: "string option \<Rightarrow> string option" where
  "bearer authHeader =
     (if falsy authHeader then authHeader else at_index (js_split CHR '' '' (the authHeader)) 1)"

definition authenticateToken ::
  "(string \<Rightarrow> jwt option) \<Rightarrow> config \<Rightarrow> timestamp \<Rightarrow> string option \<Rightarrow> response + jwt_payload" where
  "authenticateToken wire cfg now authHeader =
     (let token = bearer authHeader
      in if falsy token then Inl (Response 401 (ErrorMsg ''Access token required''))
         else (case wire (the token) of
             None \<Rightarrow> Inl (Response 403 (ErrorMsg ''Invalid token''))
           | Some t \<Rightarrow>
              (case verify_token cfg now t of
                 Inl err \<Rightarrow> Inl (Response 403 (ErrorMsg ''Invalid token''))
               | Inr user \<Rightarrow> Inr user)))"

section \<open>Linked accounts\<close>

text \<open>The \<^verbatim>\<open>for\<close> loop of \<^verbatim>\<open>GET /api/accounts\<close>: the first call that throws ends it.\<close>

fun fetch_accounts ::
  "(string \<Rightarrow> js_error + account list) \<Rightarrow> string list \<Rightarrow> account list \<Rightarrow> js_error + account list" where
  "fetch_accounts get [] allAccounts = Inr allAccounts"
| "fetch_accounts get (access_token # more_rows) allAccounts =
     (case get access_token of
        Inl err \<Rightarrow> Inl err
      | Inr accounts \<Rightarrow> fetch_accounts get more_rows (allAccounts @ accounts))"

text \<open>\<^verbatim>\<open>['investment', 'brokerage', 'ira', '401k'].includes(account.subtype)\<close>\<close>

definition investment_subtype :: "account \<Rightarrow> bool" where
  "investment_subtype a =
     (case subtype a of
        None \<Rightarrow> False
      | Some s \<Rightarrow> s \<in> set [''investment'', ''brokerage'', ''ira'', ''401k''])"

text \<open>\<^verbatim>\<open>SELECT access_token FROM plaid_items WHERE user_id = $1\<close>\<close>

definition select_access_tokens ::
  "nat \<Rightarrow> 'a tables_scheme \<Rightarrow> string list" where
  "select_access_tokens uid d =
     map p_access_token (filter (\<lambda>r. p_user_id r = Some uid) (plaid_items d))"

definition accounts_handler ::
  "env \<Rightarrow> 'a tables_scheme \<Rightarrow> jwt_payload \<Rightarrow> response" where
  "accounts_handler e d user =
     (case q_select e of
        Some err \<Rightarrow> Response 500 (ErrorMsg ''Failed to fetch accounts'')
      | None \<Rightarrow>
         (case fetch_accounts (accountsGet e) (select_access_tokens (userId user) d) [] of
            Inl err \<Rightarrow> Response 500 (ErrorMsg ''Failed to fetch accounts'')
          | Inr allAccounts \<Rightarrow> Response 200 (Accounts (filter investment_subtype allAccounts))))"

text \<open>The route \<^verbatim>\<open>GET /api/accounts\<close>: the middleware, then the handler.\<close>

definition get_accounts ::
  "(string \<Rightarrow> jwt option) \<Rightarrow> config \<Rightarrow> env \<Rightarrow> 'a tables_scheme \<Rightarrow> string option \<Rightarrow> response" where
  "get_accounts wire cfg e d authHeader =
     (case authenticateToken wire cfg (clock e) authHeader of
        Inl res \<Rightarrow> res
      | Inr user \<Rightarrow> accounts_handler e d user)"

text \<open>The route \<^verbatim>\<open>POST /api/exchange_public_token\<close>, the one writer of \<^verbatim>\<open>plaid_items\<close>.\<close>

definition exchange_public_token ::
  "(string \<Rightarrow> jwt option) \<Rightarrow> config \<Rightarrow> env \<Rightarrow> db \<Rightarrow> string option \<Rightarrow> string option \<Rightarrow> db \<times> response" where
  "exchange_public_token wire cfg e d authHeader public_token =
     (case authenticateToken wire cfg (clock e) authHeader of
        Inl res \<Rightarrow> (d, res)
      | Inr user \<Rightarrow>
         (case itemPublicTokenExchange e public_token of
            Inl err \<Rightarrow> (d, Response 500 (ErrorMsg ''Failed to link account''))
          | Inr (accessToken, item_id) \<Rightarrow>
             (case q_insert e of
                Some err \<Rightarrow> (d, Response 500 (ErrorMsg ''Failed to link account''))
              | None \<Rightarrow>
                 (d\<lparr>plaid_items := plaid_items d @
                       [\<lparr>p_id = plaid_items_id_seq d, p_user_id = Some (userId user),
                         p_access_token = accessToken, p_item_id = item_id,
                         p_created_at = clock e\<rparr>],
                     plaid_items_id_seq := plaid_items_id_seq d + 1\<rparr>,
                  Response 200 Success))))"

section \<open>Administration of invitation codes\<close>

text \<open>
  The listing of \<^verbatim>\<open>GET /api/admin/invitations\<close>: \<^verbatim>\<open>expires_at < NOW()\<close> is not true
  of a row without \<^verbatim>\<open>expires_at\<close>; the rows come newest first.
\<close>

definition sql_expired :: "timestamp \<Rightarrow> invitation \<Rightarrow> bool" where
  "sql_expired now row = (case i_expires_at row of None \<Rightarrow> False | Some t \<Rightarrow> t < now)"

definition sql_available :: "timestamp \<Rightarrow> invitation \<Rightarrow> bool" where
  "sql_available now row =
     (\<not> i_used row \<and> (case i_expires_at row of None \<Rightarrow> True | Some t \<Rightarrow> t > now))"

definition invitation_stats :: "timestamp \<Rightarrow> invitation list \<Rightarrow> stats" where
  "invitation_stats now rows =
     \<lparr>total = length rows,
      used_count = length (filter i_used rows),
      available = length (filter (sql_available now) rows),
      expired_count = length (filter (sql_expired now) rows)\<rparr>"

definition admin_list_invitations ::
  "config \<Rightarrow> env \<Rightarrow> 'a tables_scheme \<Rightarrow> string option \<Rightarrow> response" where
  "admin_list_invitations cfg e d admin_key =
     (if admin_key \<noteq> ADMIN_KEY cfg then Response 401 (ErrorMsg ''Unauthorized'')
      else (case q_select e of
          Some err \<Rightarrow> Response 500 (ErrorMsg ''Failed to fetch invitations'')
        | None \<Rightarrow>
           Response 200
             (Invitations
                (map (\<lambda>row. (row, sql_expired (clock e) row))
                   (rev (sort_key i_created_at (invitation_codes d))))
                (invitation_stats (clock e) (invitation_codes d)))))"

text \<open>
  \<^verbatim>\<open>INSERT INTO invitation_codes (code, email, expires_at) VALUES ($1, $2, $3)
  RETURNING *\<close>: the other columns take their defaults, and \<^verbatim>\<open>code\<close> is
  \<^verbatim>\<open>UNIQUE\<close>. The statement runs on the pool, so it commits by itself.
\<close>

definition insert_invitation ::
  "env \<Rightarrow> string \<Rightarrow> string \<Rightarrow> timestamp \<Rightarrow> db \<Rightarrow> db \<times> (js_error + invitation)" where
  "insert_invitation e code em expiresAt d =
     (case q_insert e of
        Some err \<Rightarrow> (d, Inl err)
      | None \<Rightarrow>
          (let iid = invitation_codes_id_seq d;
               d1 = d\<lparr>invitation_codes_id_seq := iid + 1\<rparr>;
               row = \<lparr>i_id = iid, i_code = code, i_email = em, i_used = False,
                      i_used_by = None, i_created_at = clock e, i_used_at = None,
                      i_expires_at = Some expiresAt\<rparr>
           in if \<exists>r \<in> set (invitation_codes d1). i_code r = code
                then (d1, Inl unique_violation)
              else (d1\<lparr>invitation_codes := invitation_codes d1 @ [row]\<rparr>, Inr row)))"

record admin_body =
  new_code :: "string option"
  new_email :: "string option"
  expiresInDays :: "int option"

text \<open>
  A JavaScript \<^verbatim>\<open>Date\<close> holds a time within 8640000000000000 ms of the epoch; a
  \<^verbatim>\<open>Date\<close> moved beyond that is an \<^verbatim>\<open>Invalid Date\<close>.
\<close>

definition valid_date :: "int \<Rightarrow> bool" where
  "valid_date t = (\<bar>t\<bar> \<le> 8640000000000000)"

text \<open>
  The handler of \<^verbatim>\<open>POST /api/admin/invitations\<close>. \<^verbatim>\<open>expiresInDays\<close> defaults to 30
  when the body has none; \<^verbatim>\<open>setDate(getDate() + n)\<close> moves the date by \<open>n\<close> days of
  86400000 ms (a server on UTC). An \<^verbatim>\<open>Invalid Date\<close> reaches the database as a text that
  is no timestamp: the statement fails with an error other than \<^verbatim>\<open>23505\<close> before it makes
  a row or takes a number of the sequence. A valid date that the column cannot hold is
  among the faults of \<open>q_insert\<close>.
\<close>

definition admin_create_invitation ::
  "config \<Rightarrow> env \<Rightarrow> db \<Rightarrow> string option \<Rightarrow> admin_body \<Rightarrow> db \<times> response" where
  "admin_create_invitation cfg e d admin_key b =
     (if admin_key \<noteq> ADMIN_KEY cfg then (d, Response 401 (ErrorMsg ''Unauthorized''))
      else if falsy (new_code b) \<or> falsy (new_email b)
        then (d, Response 400 (ErrorMsg ''Code and email are required''))
      else (let days = (case expiresInDays b of None \<Rightarrow> 30 | Some n \<Rightarrow> n);
                expiresAt = clock e + days * 86400000
            in if \<not> valid_date expiresAt
                 then (d, Response 500 (ErrorMsg ''Failed to create invitation''))
               else
              (case insert_invitation e (the (new_code b)) (the (new_email b)) expiresAt d of
                 (d', Inr row) \<Rightarrow> (d', Response 201 (Created ''Invitation code created'' row))
               | (d', Inl error) \<Rightarrow>
                   if err_code error = Some ''23505''
                     then (d', Response 400 (ErrorMsg ''Invitation code already exists''))
                   else (d', Response 500 (ErrorMsg ''Failed to create invitation'')))))"

section \<open>The server as a transition system\<close>

text \<open>
  Requests are served one \<^verbatim>\<open>await\<close> at a time, so the steps of different requests
  interleave. A registration has two steps: the middleware's \<^verbatim>\<open>SELECT\<close>, and the
  handler with its transaction, which the database isolates from every other
  statement. Each other route is one step. \<^verbatim>\<open>/api/login\<close> and the remaining
  aggregator routes only read the database and are left out.
\<close>

datatype request_state =
    Pending register_body
  | Validated register_body invitation
  | Done response

record system =
  database :: db
  requests :: "request_state list"
  sent :: "response list"

definition advance ::
  "config \<Rightarrow> nat \<Rightarrow> env \<Rightarrow> system \<Rightarrow> system" where
  "advance cfg i e s =
     (if i < length (requests s) then
        (case requests s ! i of
           Pending b \<Rightarrow>
             (case validateInvitation e (database s) (invitationCode b) of
                Inl res \<Rightarrow> s\<lparr>requests := (requests s)[i := Done res]\<rparr>
              | Inr row \<Rightarrow> s\<lparr>requests := (requests s)[i := Validated b row]\<rparr>)
         | Validated b row \<Rightarrow>
             (case register_handler cfg e (database s) b row of
                (d', res) \<Rightarrow> s\<lparr>database := d', requests := (requests s)[i := Done res]\<rparr>)
         | Done res \<Rightarrow> s)
      else s)"

text \<open>A route served in one step: the database it leaves and the response it sends.\<close>

definition serve :: "db \<times> response \<Rightarrow> system \<Rightarrow> system" where
  "serve out s = s\<lparr>database := fst out, sent := sent s @ [snd out]\<rparr>"

datatype event =
    Submit register_body
  | Advance nat env
  | VerifyInvitation env "string option"
  | AdminList env "string option"
  | AdminCreate env "string option" admin_body
  | GetAccounts env "string option"
  | Exchange env "string option" "string option"

definition step ::
  "(string \<Rightarrow> jwt option) \<Rightarrow> config \<Rightarrow> system \<Rightarrow> event \<Rightarrow> system" where
  "step wire cfg s ev =
     (case ev of
        Submit b \<Rightarrow> s\<lparr>requests := requests s @ [Pending b]\<rparr>
      | Advance i e \<Rightarrow> advance cfg i e s
      | VerifyInvitation e code \<Rightarrow>
          serve (database s, verify_invitation e (database s) code) s
      | AdminList e admin_key \<Rightarrow>
          serve (database s, admin_list_invitations cfg e (database s) admin_key) s
      | AdminCreate e admin_key b \<Rightarrow>
          serve (admin_create_invitation cfg e (database s) admin_key b) s
      | GetAccounts e authHeader \<Rightarrow>
          serve (database s, get_accounts wire cfg e (database s) authHeader) s
      | Exchange e authHeader public_token \<Rightarrow>
          serve (exchange_public_token wire cfg e (database s) authHeader public_token) s)"

definition run ::
  "(string \<Rightarrow> jwt option) \<Rightarrow> config \<Rightarrow> system \<Rightarrow> event list \<Rightarrow> system" where
  "run wire cfg s evs = foldl (step wire cfg) s evs"

definition boot :: system where
  "boot = \<lparr>database = createTables, requests = [], sent = []\<rparr>"

section \<open>The life of an invitation code\<close>

text \<open>
  The invariant of a row: \<^verbatim>\<open>used_by\<close> and \<^verbatim>\<open>used_at\<close> are set exactly when \<^verbatim>\<open>used\<close> is.
\<close>

definition coherent :: "invitation \<Rightarrow> bool" where
  "coherent row =
     ((i_used row \<longleftrightarrow> i_used_by row \<noteq> None) \<and> (i_used row \<longleftrightarrow> i_used_at row \<noteq> None))"

definition codes :: "system \<Rightarrow> invitation list" where
  "codes s = invitation_codes (database s)"

text \<open>
  The step from \<open>s\<close> to \<open>s'\<close> by \<open>ev\<close> redeems row \<open>k\<close> as part of a registration that
  went through: \<open>ev\<close> runs the handler of a validated registration that holds this row's
  id, the request is answered in this step, the row is marked with the id of a user who
  is new in \<open>s'\<close> and has the row's email. The answer is 201 when the server has a
  \<^verbatim>\<open>JWT_SECRET\<close>; without one \<^verbatim>\<open>jwt.sign\<close> throws after \<^verbatim>\<open>COMMIT\<close>, and the answer is an
  error although the registration is committed.
\<close>

definition redeemed_by ::
  "config \<Rightarrow> system \<Rightarrow> event \<Rightarrow> system \<Rightarrow> nat \<Rightarrow> bool" where
  "redeemed_by cfg s ev s' k =
     (case ev of
        Advance i e \<Rightarrow>
          i < length (requests s) \<and>
          (case requests s ! i of
             Validated b invitation \<Rightarrow>
               i_id invitation = i_id (codes s ! k)
               \<and> (case requests s' ! i of
                      Done res \<Rightarrow> (status res = 201 \<longleftrightarrow> JWT_SECRET cfg \<noteq> [])
                    | other \<Rightarrow> False)
               \<and> codes s' ! k = mark_used (users_id_seq (database s)) (clock e) (codes s ! k)
               \<and> (\<exists>u \<in> set (users (database s')).
                     u_id u = users_id_seq (database s) \<and> u_email u = i_email (codes s ! k)
                     \<and> u \<notin> set (users (database s)))
           | other \<Rightarrow> False)
      | other \<Rightarrow> False)"

text \<open>
  How a step treats the rows of the table: none disappears, a used row stays exactly as
  it is, and a row that goes from unused to used was redeemed by this step.
\<close>

definition lifecycle_step ::
  "config \<Rightarrow> system \<Rightarrow> event \<Rightarrow> system \<Rightarrow> bool" where
  "lifecycle_step cfg s ev s' =
     (length (codes s) \<le> length (codes s')
      \<and> (\<forall>k < length (codes s).
            (i_used (codes s ! k) \<longrightarrow> codes s' ! k = codes s ! k)
          \<and> (\<not> i_used (codes s ! k) \<and> i_used (codes s' ! k) \<longrightarrow> redeemed_by cfg s ev s' k)))"

text \<open>
  What every reachable state satisfies, used in the proofs: rows are coherent, their ids
  are distinct and below the sequence, a used row's email belongs to a user, and a
  validated request holds the id and email of a row of the table.
\<close>

definition holds_row :: "db \<Rightarrow> request_state \<Rightarrow> bool" where
  "holds_row d q =
     (case q of
        Validated b invitation \<Rightarrow>
          (\<exists>row \<in> set (invitation_codes d).
             i_id row = i_id invitation \<and> i_email row = i_email invitation)
      | other \<Rightarrow> True)"

definition sound :: "system \<Rightarrow> bool" where
  "sound s =
     ((\<forall>row \<in> set (codes s). coherent row)
      \<and> distinct (map i_id (codes s))
      \<and> (\<forall>row \<in> set (codes s). i_id row < invitation_codes_id_seq (database s))
      \<and> (\<forall>row \<in> set (codes s). i_used row \<longrightarrow> i_email row \<in> u_email ` set (users (database s)))
      \<and> (\<forall>q \<in> set (requests s). holds_row (database s) q))"

section \<open>Simultaneous registrations\<close>

text \<open>
  \<open>attempts d bs\<close> is the server with the database \<open>d\<close> and the registration requests \<open>bs\<close>
  all received and none started; a schedule lists which request takes its next step, and
  what the outside world is like at that moment. \<open>race\<close> runs a schedule.
\<close>

definition attempts :: "db \<Rightarrow> register_body list \<Rightarrow> system" where
  "attempts d bs = \<lparr>database = d, requests = map Pending bs, sent = []\<rparr>"

definition race ::
  "config \<Rightarrow> system \<Rightarrow> (nat \<times> env) list \<Rightarrow> system" where
  "race cfg s schedule = foldl (\<lambda>s' (i, e). advance cfg i e s') s schedule"

definition succeeded :: "request_state \<Rightarrow> bool" where
  "succeeded q = (case q of Done res \<Rightarrow> status res = 201 | other \<Rightarrow> False)"

definition finished :: "request_state \<Rightarrow> bool" where
  "finished q = (case q of Done res \<Rightarrow> True | other \<Rightarrow> False)"

definition lost :: "request_state \<Rightarrow> bool" where
  "lost q =
     (q = Done (Response 400 (ErrorMsg ''Invitation code already used''))
      \<or> q = Done (Response 400 (ErrorMsg ''Email already registered'')))"

definition faultless :: "env \<Rightarrow> bool" where
  "faultless e =
     (q_select e = None \<and> q_connect e = None \<and> q_begin e = None \<and> q_insert e = None
      \<and> q_update e = None \<and> q_commit e = None \<and> q_rollback e = None)"

text \<open>
  Two invariants of a race for the code \<open>c\<close>, used in the proofs. \<open>contest\<close> holds of every
  race: a validated request holds the email of the first row with the code, at most one
  user has been added, an added user means that email is registered, every success
  added a user, and with a \<^verbatim>\<open>JWT_SECRET\<close> every added user is a success. \<open>orderly\<close>
  holds of a race on a server with a \<^verbatim>\<open>JWT_SECRET\<close> in which nothing fails and every
  request supplies the bound email: until the code is used no request has finished, and
  from then on exactly one has succeeded and every other finished request has lost.
\<close>

definition entered :: "string \<Rightarrow> db \<Rightarrow> request_state \<Rightarrow> bool" where
  "entered c d q =
     (case q of
        Pending b \<Rightarrow> invitationCode b = Some c
      | Validated b r \<Rightarrow> (\<exists>r'. lookup c d = Some r' \<and> i_email r = i_email r')
      | Done res \<Rightarrow> True)"

definition contest :: "config \<Rightarrow> string \<Rightarrow> db \<Rightarrow> system \<Rightarrow> bool" where
  "contest cfg c d0 s =
     ((\<forall>q \<in> set (requests s). entered c (database s) q)
      \<and> length (users (database s)) \<le> length (users d0) + 1
      \<and> (length (users (database s)) \<noteq> length (users d0) \<longrightarrow>
           (\<exists>r'. lookup c (database s) = Some r' \<and> i_email r' \<in> u_email ` set (users (database s))))
      \<and> length (users d0) + length (filter succeeded (requests s)) \<le> length (users (database s))
      \<and> (JWT_SECRET cfg \<noteq> [] \<longrightarrow>
           length (users (database s)) = length (users d0) + length (filter succeeded (requests s))))"

definition in_race ::
  "register_body list \<Rightarrow> invitation \<Rightarrow> request_state \<Rightarrow> bool" where
  "in_race bs r0 q =
     (case q of
        Pending b \<Rightarrow> b \<in> set bs
      | Validated b r \<Rightarrow> b \<in> set bs \<and> i_id r = i_id r0 \<and> i_email r = i_email r0
      | Done res \<Rightarrow> succeeded q \<or> lost q)"

definition orderly ::
  "string \<Rightarrow> register_body list \<Rightarrow> invitation \<Rightarrow> system \<Rightarrow> bool" where
  "orderly c bs r0 s =
     ((\<forall>q \<in> set (requests s). in_race bs r0 q)
      \<and> (\<exists>r'. lookup c (database s) = Some r' \<and> i_id r' = i_id r0 \<and> i_email r' = i_email r0
             \<and> i_expires_at r' = i_expires_at r0
             \<and> (i_used r' \<longrightarrow>
                  (\<exists>u \<in> set (users (database s)). u_email u = i_email r0)
                  \<and> length (filter succeeded (requests s)) = 1)
             \<and> (\<not> i_used r' \<longrightarrow>
                  (\<forall>u \<in> set (users (database s)). u_email u \<noteq> i_email r0)
                  \<and> (\<forall>q \<in> set (requests s). \<not> finished q))))"

section \<open>The outcomes of the registration handler, flattened\<close>

text \<open>
  Names for what the handler can leave behind: the user row the \<^verbatim>\<open>INSERT\<close> adds, the
  invitation table after the \<^verbatim>\<open>UPDATE\<close>, the database after \<^verbatim>\<open>COMMIT\<close>, the database
  after a rollback that follows the \<^verbatim>\<open>INSERT\<close> (only the sequence has moved), and the
  error that reaches the outer \<^verbatim>\<open>catch\<close> once \<^verbatim>\<open>ROLLBACK\<close> has run.
\<close>

definition added_user ::
  "env \<Rightarrow> db \<Rightarrow> string \<Rightarrow> string \<Rightarrow> user_row" where
  "added_user e d em ph =
     \<lparr>u_id = users_id_seq d, u_email = em, u_password_hash = ph, u_created_at = clock e\<rparr>"

definition redeem ::
  "env \<Rightarrow> db \<Rightarrow> invitation \<Rightarrow> invitation list" where
  "redeem e d invitation =
     map (\<lambda>row. if i_id row = i_id invitation
                 then mark_used (users_id_seq d) (clock e) row else row)
       (invitation_codes d)"

definition committed ::
  "env \<Rightarrow> db \<Rightarrow> string \<Rightarrow> string \<Rightarrow> invitation \<Rightarrow> db" where
  "committed e d em ph invitation =
     d\<lparr>users := users d @ [added_user e d em ph],
       invitation_codes := redeem e d invitation,
       users_id_seq := users_id_seq d + 1\<rparr>"

definition bump :: "db \<Rightarrow> db" where
  "bump d = d\<lparr>users_id_seq := users_id_seq d + 1\<rparr>"

definition thrown :: "env \<Rightarrow> js_error \<Rightarrow> js_error" where
  "thrown e err = (case q_rollback e of Some err' \<Rightarrow> err' | None \<Rightarrow> err)"

section \<open>The spec's redemption check\<close>

text \<open>
  The Invitation Ledger of the spec, in its words: \<open>validateForRedemption\<close> "returns
  the first applicable error in this precedence order: code not found, INVALID; used, ALREADY_USED; expiresAt in the past, EXPIRED;
  bound email other than the supplied email, EMAIL_MISMATCH. A code with no expiresAt
  never expires." \<open>refusal\<close> is the response with which \<^verbatim>\<open>validateInvitation\<close> and the
  register handler report each error.
\<close>

datatype redemption_error = INVALID | ALREADY_USED | EXPIRED | EMAIL_MISMATCH

text \<open>\<open>None\<close> is the spec's \<^verbatim>\<open>Ok\<close>.\<close>

definition validateForRedemption ::
  "'a tables_scheme \<Rightarrow> timestamp \<Rightarrow> string \<Rightarrow> string \<Rightarrow> redemption_error option" where
  "validateForRedemption d now c em =
     (case lookup c d of
        None \<Rightarrow> Some INVALID
      | Some row \<Rightarrow>
          if i_used row then Some ALREADY_USED
          else if (case i_expires_at row of None \<Rightarrow> False | Some t \<Rightarrow> t < now)
            then Some EXPIRED
          else if i_email row \<noteq> em then Some EMAIL_MISMATCH
          else None)"

definition refusal :: "redemption_error \<Rightarrow> response" where
  "refusal r =
     (case r of
        INVALID \<Rightarrow> Response 400 (ErrorMsg ''Invalid invitation code'')
      | ALREADY_USED \<Rightarrow> Response 400 (ErrorMsg ''Invitation code already used'')
      | EXPIRED \<Rightarrow> Response 400 (ErrorMsg ''Invitation code has expired'')
      | EMAIL_MISMATCH \<Rightarrow> Response 400 (ErrorMsg ''Email does not match invitation''))"

section \<open>A sample world\<close>

text \<open>
  The scenario of the spec: the code \<^verbatim>\<open>ABC123\<close>, bound to \<^verbatim>\<open>a@x.com\<close>, unused, issued at
  time 0 and expiring 30 days later; an outside world in which nothing fails.
\<close>

definition calm :: "timestamp \<Rightarrow> env" where
  "calm now =
     \<lparr>clock = now, q_select = None, q_connect = None, q_begin = None, q_insert = None,
      q_update = None, q_commit = None, q_rollback = None,
      bcrypt_hash = (\<lambda>pw rounds. case pw of None \<Rightarrow> Inl (JsError None) | Some p \<Rightarrow> Inr (''$2b$'' @ p)),
      accountsGet = (\<lambda>access_token.
         Inr [\<lparr>account_id = access_token @ ''-1'', account_name = ''Brokerage'', subtype = Some ''brokerage''\<rparr>,
              \<lparr>account_id = access_token @ ''-2'', account_name = ''Checking'', subtype = Some ''checking''\<rparr>,
              \<lparr>account_id = access_token @ ''-3'', account_name = ''Unknown'', subtype = None\<rparr>]),
      itemPublicTokenExchange = (\<lambda>public_token. Inr (''access-token'', ''item-1''))\<rparr>"

definition cfg0 :: config where
  "cfg0 = \<lparr>JWT_SECRET = ''s3cret'', ADMIN_KEY = Some ''letmein''\<rparr>"

text \<open>The same server started without a \<^verbatim>\<open>JWT_SECRET\<close>.\<close>

definition no_secret :: config where
  "no_secret = cfg0\<lparr>JWT_SECRET := []\<rparr>"

definition abc123 :: invitation where
  "abc123 =
     \<lparr>i_id = 1, i_code = ''ABC123'', i_email = ''a@x.com'', i_used = False, i_used_by = None,
      i_created_at = 0, i_used_at = None, i_expires_at = Some 2592000000\<rparr>"

definition db_abc :: db where
  "db_abc = createTables\<lparr>invitation_codes := [abc123], invitation_codes_id_seq := 2\<rparr>"

definition alice :: register_body where
  "alice = \<lparr>email = Some ''a@x.com'', password = Some ''secret1'', invitationCode = Some ''ABC123''\<rparr>"

text \<open>The same world after \<^verbatim>\<open>a@x.com\<close> has registered with the code at time 5.\<close>

definition db_spent :: db where
  "db_spent = committed (calm 5) db_abc ''a@x.com'' ''$2b$secret1'' abc123"

text \<open>A second code for the same address, issued at time 6, and the request that redeems it.\<close>

definition def456 :: invitation where
  "def456 =
     \<lparr>i_id = 2, i_code = ''DEF456'', i_email = ''a@x.com'', i_used = False, i_used_by = None,
      i_created_at = 6, i_used_at = None, i_expires_at = Some 2592000006\<rparr>"

definition db_again :: db where
  "db_again =
     db_spent\<lparr>invitation_codes := invitation_codes db_spent @ [def456],
       invitation_codes_id_seq := 3\<rparr>"

definition alice_again :: register_body where
  "alice_again = alice\<lparr>invitationCode := Some ''DEF456''\<rparr>"

text \<open>
  Her session: the token text \<^verbatim>\<open>tok\<close> stands for the token issued to her at time 5, and
  any other text is no token. At time 8 she links an institution.
\<close>

definition wire0 :: "string \<Rightarrow> jwt option" where
  "wire0 s = (if s = ''tok'' then Some (issue_token cfg0 5 1 ''a@x.com'') else None)"

definition db_linked :: db where
  "db_linked =
     db_spent\<lparr>plaid_items :=
         [\<lparr>p_id = 1, p_user_id = Some 1, p_access_token = ''access-token'',
           p_item_id = ''item-1'', p_created_at = 8\<rparr>],
       plaid_items_id_seq := 2\<rparr>"

text \<open>
  How that world came about: the administrator creates the code at time 0, the
  registration arrives, and its middleware runs at time 5.
\<close>

definition history :: "event list" where
  "history =
     [AdminCreate (calm 0) (Some ''letmein'')
        \<lparr>new_code = Some ''ABC123'', new_email = Some ''a@x.com'', expiresInDays = None\<rparr>,
      Submit alice,
      Advance 0 (calm 5)]"

section \<open>Lemmas on the helpers\<close>

lemma js_split_not_Nil: "js_split c s \<noteq> []"
  by (induction s) (auto split: list.splits)

lemma js_split_absent: "c \<notin> set s \<Longrightarrow> js_split c s = [s]"
  by (induction s) auto

lemma js_split_first: "c \<notin> set a \<Longrightarrow> js_split c (a @ c # b) = a # js_split c b"
  by (induction a) (auto split: list.splits simp: js_split_not_Nil)

lemma find_filter_conv:
  "find P xs = (case filter P xs of [] \<Rightarrow> None | x # rest \<Rightarrow> Some x)"
  by (induction xs) auto

lemma register_try_eq:
  "register_try cfg e em ph row \<lparr>c_db = d, c_tx = None\<rparr> =
     (case q_begin e of
        Some err \<Rightarrow> (\<lparr>c_db = d, c_tx = None\<rparr>, Inl err)
      | None \<Rightarrow>
     (case q_insert e of
        Some err \<Rightarrow> (\<lparr>c_db = d, c_tx = Some (snapshot d)\<rparr>, Inl err)
      | None \<Rightarrow>
         if \<exists>u \<in> set (users d). u_email u = em
           then (\<lparr>c_db = bump d, c_tx = Some (snapshot d)\<rparr>, Inl unique_violation)
         else
     (case q_update e of
        Some err \<Rightarrow>
          (\<lparr>c_db = bump d, c_tx = Some ((snapshot d)\<lparr>users := users d @ [added_user e d em ph]\<rparr>)\<rparr>, Inl err)
      | None \<Rightarrow>
     (case q_commit e of
        Some err \<Rightarrow>
          (\<lparr>c_db = bump d,
            c_tx = Some ((snapshot d)\<lparr>users := users d @ [added_user e d em ph],
                     invitation_codes := redeem e d row\<rparr>)\<rparr>, Inl err)
      | None \<Rightarrow>
          (\<lparr>c_db = committed e d em ph row, c_tx = None\<rparr>,
           if JWT_SECRET cfg = [] then Inl (JsError None)
           else Inr (Response 201 (Registered ''Registration successful''
                 (issue_token cfg (clock e) (users_id_seq d) em) (users_id_seq d) em)))))))"
  by (simp add: register_try_def client_begin_def insert_user_def
    update_invitation_def client_commit_def bump_def sign_token_def
    visible_def write_tables_def snapshot_def install_def added_user_def committed_def redeem_def Let_def
    split: option.splits)

lemma register_handler_eq:
  "register_handler cfg e d b row =
     (case email b of
        None \<Rightarrow> (d, Response 400 (ErrorMsg ''Email does not match invitation''))
      | Some em \<Rightarrow>
         if em \<noteq> i_email row then (d, Response 400 (ErrorMsg ''Email does not match invitation''))
         else (case bcrypt_hash e (password b) 12 of
             Inl err \<Rightarrow> (d, register_catch err)
           | Inr ph \<Rightarrow>
     (case q_connect e of
        Some err \<Rightarrow> (d, register_catch err)
      | None \<Rightarrow>
     (case q_begin e of
        Some err \<Rightarrow> (d, register_catch (thrown e err))
      | None \<Rightarrow>
     (case q_insert e of
        Some err \<Rightarrow> (d, register_catch (thrown e err))
      | None \<Rightarrow>
         if \<exists>u \<in> set (users d). u_email u = em
           then (bump d, register_catch (thrown e unique_violation))
         else
     (case q_update e of
        Some err \<Rightarrow> (bump d, register_catch (thrown e err))
      | None \<Rightarrow>
     (case q_commit e of
        Some err \<Rightarrow> (bump d, register_catch (thrown e err))
      | None \<Rightarrow>
          (committed e d em ph row,
           if JWT_SECRET cfg = [] then register_catch (thrown e (JsError None))
           else Response 201 (Registered ''Registration successful''
                 (issue_token cfg (clock e) (users_id_seq d) em) (users_id_seq d) em)))))))))"
  by (auto simp add: register_handler_def register_try_eq client_rollback_def thrown_def
      split: option.splits sum.splits)

lemma status_register_catch: "status (register_catch err) \<noteq> 201"
  by (simp add: register_catch_def)

text \<open>
  The handler either stops before \<^verbatim>\<open>COMMIT\<close> has run and leaves the tables as they were,
  or commits; it answers 201 when it has committed and the token is signed.
\<close>

lemma register_handler_early:
  assumes "register_handler cfg e d b row = (d', res)" and "stops_early e d b row"
  shows "users d' = users d \<and> invitation_codes d' = invitation_codes d
     \<and> plaid_items d' = plaid_items d \<and> status res \<noteq> 201"
  using assms unfolding register_handler_eq stops_early_def
  by (auto simp: bump_def status_register_catch split: option.splits sum.splits if_splits)

lemma register_handler_late:
  assumes "register_handler cfg e d b row = (d', res)" and "\<not> stops_early e d b row"
  shows "(\<exists>ph. bcrypt_hash e (password b) 12 = Inr ph \<and> d' = committed e d (i_email row) ph row)
     \<and> (status res = 201 \<longleftrightarrow> JWT_SECRET cfg \<noteq> [])"
  using assms unfolding register_handler_eq stops_early_def
  by (auto simp: status_register_catch split: option.splits sum.splits if_splits)

lemma register_handler_failure:
  assumes "register_handler cfg e d b row = (d', res)" and "status res \<noteq> 201"
    and "JWT_SECRET cfg \<noteq> []"
  shows "users d' = users d \<and> invitation_codes d' = invitation_codes d \<and> plaid_items d' = plaid_items d"
proof (cases "stops_early e d b row")
  case True
  from register_handler_early [OF assms(1) True] show ?thesis by simp
next
  case False
  from register_handler_late [OF assms(1) False] assms(2,3) show ?thesis by simp
qed

lemma register_handler_success:
  assumes "register_handler cfg e d b row = (d', res)" and "status res = 201"
  shows "email b = Some (i_email row) \<and> (\<forall>u \<in> set (users d). u_email u \<noteq> i_email row)
     \<and> (\<exists>ph. d' = committed e d (i_email row) ph row)
     \<and> q_insert e = None \<and> q_update e = None \<and> q_commit e = None \<and> q_begin e = None \<and> q_connect e = None
     \<and> JWT_SECRET cfg \<noteq> []"
proof (cases "stops_early e d b row")
  case True
  from register_handler_early [OF assms(1) True] assms(2) show ?thesis by simp
next
  case False
  from register_handler_late [OF assms(1) False] assms(2) False show ?thesis
    by (auto simp: stops_early_def)
qed

lemma register_handler_cases:
  assumes "register_handler cfg e d b row = (d', res)"
  obtains (early) "users d' = users d" "invitation_codes d' = invitation_codes d"
      "plaid_items d' = plaid_items d" "status res \<noteq> 201"
  | (late) ph where "\<forall>u \<in> set (users d). u_email u \<noteq> i_email row"
      "d' = committed e d (i_email row) ph row"
      "status res = 201 \<longleftrightarrow> JWT_SECRET cfg \<noteq> []"
proof (cases "stops_early e d b row")
  case True
  from register_handler_early [OF assms True] show ?thesis using early by simp
next
  case False
  from register_handler_late [OF assms False]
  obtain ph where "d' = committed e d (i_email row) ph row"
    and "status res = 201 \<longleftrightarrow> JWT_SECRET cfg \<noteq> []" by auto
  moreover from False have "\<forall>u \<in> set (users d). u_email u \<noteq> i_email row"
    by (simp add: stops_early_def)
  ultimately show ?thesis using late by simp
qed

lemma lookup_select:
  "lookup c d = (case select_invitation c d of [] \<Rightarrow> None | row # rest \<Rightarrow> Some row)"
  by (simp add: lookup_def select_invitation_def find_filter_conv)

lemma register_after_validation:
  "validateInvitation e d (invitationCode b) = Inr row \<Longrightarrow>
     register cfg e d b = register_handler cfg e d b row"
  by (simp add: register_def)

lemma register_refused:
  "validateInvitation e d (invitationCode b) = Inl res \<Longrightarrow> register cfg e d b = (d, res)"
  by (simp add: register_def)

lemma validateInvitation_present:
  assumes "c \<noteq> []" and "q_select e = None"
  shows "validateInvitation e d (Some c) =
     (case select_invitation c d of
        [] \<Rightarrow> Inl (refusal INVALID)
      | row # rest \<Rightarrow>
          if i_used row then Inl (refusal ALREADY_USED)
          else if expired (clock e) row then Inl (refusal EXPIRED)
          else Inr row)"
  using assms by (simp add: validateInvitation_def falsy_def refusal_def split: list.splits)

lemma handler_never_refuses_twice:
  assumes "email b = Some (i_email row)"
  shows "snd (register_handler cfg e d b row) \<noteq> refusal r"
  using assms unfolding register_handler_eq
  by (cases r) (auto simp: refusal_def register_catch_def split: option.splits sum.splits)

lemma handler_mismatch:
  assumes "email b = Some em" and "em \<noteq> i_email row"
  shows "register_handler cfg e d b row = (d, refusal EMAIL_MISMATCH)"
  using assms by (simp add: register_handler_def refusal_def)

lemma email_domain:
  assumes "CHR ''@'' \<notin> set local" and "CHR ''@'' \<notin> set domain"
  shows "at_index (js_split CHR ''@'' (local @ ''@'' @ domain)) 1 = Some domain"
  using assms by (simp add: js_split_first js_split_absent at_index_def)

lemma no_email_domain:
  assumes "CHR ''@'' \<notin> set s"
  shows "at_index (js_split CHR ''@'' s) 1 = None"
  using assms by (simp add: js_split_absent at_index_def)

lemma bearer_of_header:
  assumes "s \<noteq> []" and "CHR '' '' \<notin> set s"
  shows "bearer (Some (''Bearer '' @ s)) = Some s"
proof -
  have "js_split CHR '' '' (''Bearer'' @ CHR '' '' # s) = ''Bearer'' # js_split CHR '' '' s"
    by (rule js_split_first) simp
  then show ?thesis using assms by (simp add: bearer_def falsy_def at_index_def js_split_absent)
qed

lemma authenticateToken_cases:
  "authenticateToken wire cfg now authHeader =
     (if falsy (bearer authHeader) then Inl (Response 401 (ErrorMsg ''Access token required''))
      else (case wire (the (bearer authHeader)) of
          None \<Rightarrow> Inl (Response 403 (ErrorMsg ''Invalid token''))
        | Some t \<Rightarrow>
            if signed_with t \<noteq> JWT_SECRET cfg \<or> exp (payload t) \<le> now
              then Inl (Response 403 (ErrorMsg ''Invalid token''))
            else Inr (payload t)))"
  by (simp add: authenticateToken_def verify_token_def jwt_verify_def Let_def split: option.splits)

lemma fetch_accounts_answers:
  "fetch_accounts get ts acc = Inr r \<Longrightarrow>
     \<exists>answers. map get ts = map Inr answers \<and> r = acc @ concat answers"
proof (induction ts arbitrary: acc)
  case Nil
  then show ?case by simp
next
  case (Cons t ts)
  show ?case
  proof (cases "get t")
    case (Inl err)
    with Cons.prems show ?thesis by simp
  next
    case (Inr accounts)
    with Cons.prems have "fetch_accounts get ts (acc @ accounts) = Inr r" by simp
    from Cons.IH [OF this] obtain answers
      where "map get ts = map Inr answers" "r = (acc @ accounts) @ concat answers" by blast
    with Inr have "map get (t # ts) = map Inr (accounts # answers)
        \<and> r = acc @ concat (accounts # answers)" by simp
    then show ?thesis by blast
  qed
qed

lemma investment_subtype_iff:
  "investment_subtype a \<longleftrightarrow>
     subtype a \<in> {Some ''investment'', Some ''brokerage'', Some ''ira'', Some ''401k''}"
  by (cases "subtype a") (auto simp: investment_subtype_def)

section \<open>Lemmas on the transition system\<close>

lemma coherent_mark_used: "coherent (mark_used uid now row)"
  by (simp add: coherent_def mark_used_def)

lemma mark_used_keeps:
  "i_id (mark_used uid now row) = i_id row" "i_email (mark_used uid now row) = i_email row"
  "i_code (mark_used uid now row) = i_code row" "i_used (mark_used uid now row)"
  by (simp_all add: mark_used_def)

lemma committed_tables:
  "users (committed e d em ph row) = users d @ [added_user e d em ph]"
  "invitation_codes (committed e d em ph row) = redeem e d row"
  "invitation_codes_id_seq (committed e d em ph row) = invitation_codes_id_seq d"
  "plaid_items (committed e d em ph row) = plaid_items d"
  by (simp_all add: committed_def)

lemma redeem_ids: "map i_id (redeem e d row) = map i_id (invitation_codes d)"
  by (simp add: redeem_def mark_used_keeps comp_def cong: map_cong)

lemma redeem_length: "length (redeem e d row) = length (invitation_codes d)"
  by (simp add: redeem_def)

lemma redeem_nth:
  "k < length (invitation_codes d) \<Longrightarrow>
     redeem e d row ! k =
       (if i_id (invitation_codes d ! k) = i_id row
          then mark_used (users_id_seq d) (clock e) (invitation_codes d ! k)
        else invitation_codes d ! k)"
  by (simp add: redeem_def)

lemma register_handler_failure_seq:
  assumes "register_handler cfg e d b row = (d', res)"
  shows "invitation_codes_id_seq d' = invitation_codes_id_seq d"
  using assms unfolding register_handler_eq
  by (auto simp: bump_def committed_def split: option.splits sum.splits if_splits)

lemma admin_create_cases:
  assumes "admin_create_invitation cfg e d k b = (d', res)"
  shows "(users d' = users d \<and> invitation_codes d' = invitation_codes d
            \<and> invitation_codes_id_seq d \<le> invitation_codes_id_seq d' \<and> status res \<noteq> 201)
       \<or> (\<exists>row. res = Response 201 (Created ''Invitation code created'' row)
            \<and> users d' = users d \<and> invitation_codes d' = invitation_codes d @ [row]
            \<and> i_id row = invitation_codes_id_seq d
            \<and> invitation_codes_id_seq d' = invitation_codes_id_seq d + 1
            \<and> \<not> i_used row \<and> i_used_by row = None \<and> i_used_at row = None)"
  using assms
  by (auto simp: admin_create_invitation_def insert_invitation_def Let_def unique_violation_def
      split: if_splits option.splits)

lemma exchange_keeps:
  assumes "exchange_public_token wire cfg e d h t = (d', res)"
  shows "users d' = users d \<and> invitation_codes d' = invitation_codes d
       \<and> invitation_codes_id_seq d' = invitation_codes_id_seq d"
  using assms
  by (auto simp: exchange_public_token_def split: sum.splits option.splits prod.splits)

lemma validateInvitation_row:
  "validateInvitation e d code = Inr row \<Longrightarrow> row \<in> set (invitation_codes d) \<and> \<not> i_used row"
proof -
  assume a: "validateInvitation e d code = Inr row"
  then obtain rest where "select_invitation (the code) d = row # rest" and "\<not> i_used row"
    by (auto simp: validateInvitation_def split: if_splits option.splits list.splits)
  then have "row \<in> set (select_invitation (the code) d)" by simp
  then have "row \<in> set (invitation_codes d)" by (simp add: select_invitation_def)
  with \<open>\<not> i_used row\<close> show ?thesis by simp
qed

lemma holds_row_same:
  "invitation_codes d' = invitation_codes d \<Longrightarrow> holds_row d' q = holds_row d q"
  by (simp add: holds_row_def split: request_state.splits)

lemma holds_row_simps:
  "holds_row d (Pending b)" "holds_row d (Done res)"
  "holds_row d (Validated b r) \<longleftrightarrow>
     (\<exists>row \<in> set (invitation_codes d). i_id row = i_id r \<and> i_email row = i_email r)"
  by (simp_all add: holds_row_def)

lemma in_set_update:
  "q \<in> set (xs[i := y]) \<Longrightarrow> q = y \<or> q \<in> set xs"
  using set_update_subset_insert [of xs i y] by auto

lemma ball_update:
  assumes "\<forall>x \<in> set xs. P x" and "P y"
  shows "\<forall>x \<in> set (xs[i := y]). P x"
  using assms in_set_update [of _ xs i y] by blast

lemma sound_boot: "sound boot"
  by (simp add: sound_def boot_def codes_def createTables_def)

lemma sound_quiet:
  assumes "sound s" and "users (database s') = users (database s)"
    and "codes s' = codes s"
    and "invitation_codes_id_seq (database s) \<le> invitation_codes_id_seq (database s')"
    and "\<forall>q \<in> set (requests s'). holds_row (database s) q"
  shows "sound s'"
proof -
  from assms(3) have same: "invitation_codes (database s') = invitation_codes (database s)"
    by (simp add: codes_def)
  have "\<forall>row \<in> set (codes s). i_id row < invitation_codes_id_seq (database s')"
    using assms(1,4) by (fastforce simp: sound_def)
  moreover have "\<forall>q \<in> set (requests s'). holds_row (database s') q"
    using assms(5) holds_row_same [OF same] by simp
  ultimately show ?thesis using assms(1,2,3) by (simp add: sound_def)
qed

lemma sound_created:
  assumes "sound s" and "users (database s') = users (database s)"
    and "codes s' = codes s @ [row]" and "i_id row = invitation_codes_id_seq (database s)"
    and "invitation_codes_id_seq (database s') = invitation_codes_id_seq (database s) + 1"
    and "\<not> i_used row" and "i_used_by row = None" and "i_used_at row = None"
    and "requests s' = requests s"
  shows "sound s'"
proof -
  have fresh: "i_id row \<notin> i_id ` set (codes s)"
    using assms(1,4) by (auto simp: sound_def)
  have "\<forall>q \<in> set (requests s'). holds_row (database s') q"
  proof
    fix q assume "q \<in> set (requests s')"
    with assms(1,9) have "holds_row (database s) q" by (simp add: sound_def)
    then show "holds_row (database s') q"
      using assms(3) by (cases q) (auto simp: holds_row_simps codes_def)
  qed
  moreover have "coherent row" using assms(6,7,8) by (simp add: coherent_def)
  moreover have "\<forall>r \<in> set (codes s). i_id r < invitation_codes_id_seq (database s) + 1"
    using assms(1) by (fastforce simp: sound_def)
  ultimately show ?thesis using assms(1-6) fresh by (auto simp: sound_def)
qed

lemma sound_committed:
  assumes s: "sound s" and i: "i < length (requests s)" and q: "requests s ! i = Validated b r0"
    and free: "\<forall>u \<in> set (users (database s)). u_email u \<noteq> i_email r0"
    and d': "database s' = committed e (database s) (i_email r0) ph r0"
    and r': "requests s' = (requests s)[i := Done res]"
  shows "sound s'"
proof -
  let ?d = "database s"
  from s i q have "holds_row ?d (Validated b r0)"
    by (metis nth_mem sound_def)
  then obtain held where held: "held \<in> set (invitation_codes ?d)" "i_id held = i_id r0"
    "i_email held = i_email r0"
    by (auto simp: holds_row_simps)
  have ids: "distinct (map i_id (invitation_codes ?d))" using s by (simp add: sound_def codes_def)
  have same_id: "i_email row = i_email r0"
    if "row \<in> set (invitation_codes ?d)" "i_id row = i_id r0" for row
    using that held ids by (metis distinct_map inj_onD)
  have c': "invitation_codes (database s') = redeem e ?d r0" by (simp add: d' committed_tables)
  have u': "users (database s') = users ?d @ [added_user e ?d (i_email r0) ph]"
    by (simp add: d' committed_tables)
  have one: "\<forall>row \<in> set (codes s'). coherent row"
    using s by (auto simp: codes_def c' redeem_def sound_def coherent_mark_used)
  have two: "distinct (map i_id (codes s'))"
    using ids by (simp add: codes_def c' redeem_ids)
  have three: "\<forall>row \<in> set (codes s'). i_id row < invitation_codes_id_seq (database s')"
    using s by (auto simp: codes_def committed_tables d' redeem_def sound_def mark_used_keeps)
  have four: "\<forall>row \<in> set (codes s'). i_used row \<longrightarrow> i_email row \<in> u_email ` set (users (database s'))"
  proof (intro ballI impI)
    fix row assume "row \<in> set (codes s')" and used: "i_used row"
    then obtain old where old: "old \<in> set (invitation_codes ?d)"
      "row = (if i_id old = i_id r0 then mark_used (users_id_seq ?d) (clock e) old else old)"
      by (auto simp: codes_def c' redeem_def)
    show "i_email row \<in> u_email ` set (users (database s'))"
    proof (cases "i_id old = i_id r0")
      case True
      with old same_id have "i_email row = i_email r0" by (simp add: mark_used_keeps)
      then show ?thesis by (simp add: u' added_user_def)
    next
      case False
      with old used s have "i_email row \<in> u_email ` set (users ?d)"
        by (auto simp: sound_def codes_def)
      then show ?thesis by (auto simp: u')
    qed
  qed
  have five: "\<forall>q \<in> set (requests s'). holds_row (database s') q"
  proof
    fix q assume "q \<in> set (requests s')"
    then have "q = Done res \<or> q \<in> set (requests s)" using r' in_set_update by metis
    then show "holds_row (database s') q"
    proof
      assume "q = Done res" then show ?thesis by (simp add: holds_row_simps)
    next
      assume "q \<in> set (requests s)"
      with s have h: "holds_row ?d q" by (simp add: sound_def)
      show ?thesis
      proof (cases q)
        case (Validated b1 r1)
        with h obtain row where row: "row \<in> set (invitation_codes ?d)" "i_id row = i_id r1"
          "i_email row = i_email r1" by (auto simp: holds_row_simps)
        let ?row' = "if i_id row = i_id r0 then mark_used (users_id_seq ?d) (clock e) row else row"
        have "?row' \<in> set (redeem e ?d r0)" using row(1) by (auto simp: redeem_def)
        moreover have "i_id ?row' = i_id r1 \<and> i_email ?row' = i_email r1"
          using row by (simp add: mark_used_keeps)
        ultimately show ?thesis
          unfolding Validated holds_row_simps d' committed_tables by blast
      qed (simp_all add: holds_row_simps)
    qed
  qed
  from one two three four five show ?thesis by (simp add: sound_def)
qed

lemma serve_simps:
  "database (serve out s) = fst out" "requests (serve out s) = requests s"
  by (simp_all add: serve_def)

lemma sound_serve_quiet:
  assumes "sound s" and "users (fst out) = users (database s)"
    and "invitation_codes (fst out) = invitation_codes (database s)"
    and "invitation_codes_id_seq (database s) \<le> invitation_codes_id_seq (fst out)"
  shows "sound (serve out s)"
proof (rule sound_quiet [OF assms(1)])
  show "users (database (serve out s)) = users (database s)"
    using assms(2) by (simp add: serve_simps)
  show "codes (serve out s) = codes s"
    using assms(3) by (simp add: serve_simps codes_def)
  show "invitation_codes_id_seq (database s) \<le> invitation_codes_id_seq (database (serve out s))"
    using assms(4) by (simp add: serve_simps)
  show "\<forall>q \<in> set (requests (serve out s)). holds_row (database s) q"
    using assms(1) by (simp add: serve_simps sound_def)
qed

lemma sound_requests:
  assumes "sound s" and "\<forall>q \<in> set qs. holds_row (database s) q"
  shows "sound (s\<lparr>requests := qs\<rparr>)"
proof (rule sound_quiet [OF assms(1)])
  show "\<forall>q \<in> set (requests (s\<lparr>requests := qs\<rparr>)). holds_row (database s) q"
    using assms(2) by simp
qed (simp_all add: codes_def)

text \<open>What one step of a registration does, as three cases.\<close>

lemma advance_cases:
  obtains (idle) "advance cfg i e s = s"
  | (checked) b q where "i < length (requests s)" "requests s ! i = Pending b"
      "advance cfg i e s = s\<lparr>requests := (requests s)[i := q]\<rparr>"
      "(\<exists>res. q = Done res \<and> validateInvitation e (database s) (invitationCode b) = Inl res)
       \<or> (\<exists>row. q = Validated b row
              \<and> validateInvitation e (database s) (invitationCode b) = Inr row)"
  | (handled) b r0 d' res where "i < length (requests s)" "requests s ! i = Validated b r0"
      "register_handler cfg e (database s) b r0 = (d', res)"
      "advance cfg i e s = s\<lparr>database := d', requests := (requests s)[i := Done res]\<rparr>"
proof (cases "i < length (requests s)")
  case False
  then show ?thesis using idle by (simp add: advance_def)
next
  case True
  show ?thesis
  proof (cases "requests s ! i")
    case (Pending b)
    then show ?thesis
      using True checked [of b]
      by (cases "validateInvitation e (database s) (invitationCode b)")
         (simp_all add: advance_def)
  next
    case (Validated b r0)
    then show ?thesis
      using True handled [of b r0]
      by (cases "register_handler cfg e (database s) b r0") (simp add: advance_def)
  next
    case (Done res)
    then show ?thesis using True idle by (simp add: advance_def)
  qed
qed

lemma sound_advance:
  assumes "sound s"
  shows "sound (advance cfg i e s)"
proof (cases rule: advance_cases [of cfg i e s])
  case idle
  with assms show ?thesis by simp
next
  case (checked b q)
  have hq: "holds_row (database s) q"
    using checked(4) validateInvitation_row [of e "database s" "invitationCode b"]
    by (auto simp: holds_row_simps)
  have "\<forall>x \<in> set (requests s). holds_row (database s) x"
    using assms by (simp add: sound_def)
  then have "\<forall>x \<in> set ((requests s)[i := q]). holds_row (database s) x"
    using hq by (rule ball_update)
  then show ?thesis unfolding checked(3) by (rule sound_requests [OF assms])
next
  case (handled b r0 d' res)
  from handled(3) show ?thesis
  proof (cases rule: register_handler_cases)
    case early
    with register_handler_failure_seq [OF handled(3)]
    have same: "users d' = users (database s)" "invitation_codes d' = invitation_codes (database s)"
      "invitation_codes_id_seq d' = invitation_codes_id_seq (database s)" by simp_all
    have "\<forall>x \<in> set (requests s). holds_row (database s) x"
      using assms by (simp add: sound_def)
    then have all: "\<forall>x \<in> set ((requests s)[i := Done res]). holds_row (database s) x"
      using ball_update [of "requests s" "holds_row (database s)" "Done res" i]
      by (simp add: holds_row_simps)
    show ?thesis
      unfolding handled(4)
    proof (rule sound_quiet [OF assms])
      show "\<forall>q \<in> set (requests (s\<lparr>database := d', requests := (requests s)[i := Done res]\<rparr>)).
              holds_row (database s) q"
        using all by simp
    qed (simp_all add: codes_def same)
  next
    case (late ph)
    show ?thesis
      unfolding handled(4)
      by (rule sound_committed [OF assms handled(1,2) late(1), of _ e ph res])
         (simp_all add: late(2))
  qed
qed

lemma sound_step:
  assumes "sound s"
  shows "sound (step wire cfg s ev)"
proof (cases ev)
  case (Submit b)
  have "\<forall>q \<in> set (requests s @ [Pending b]). holds_row (database s) q"
    using assms by (auto simp: sound_def holds_row_simps)
  then have "sound (s\<lparr>requests := requests s @ [Pending b]\<rparr>)"
    by (rule sound_requests [OF assms])
  then show ?thesis by (simp add: Submit step_def)
next
  case (Advance i e)
  then show ?thesis using sound_advance [OF assms] by (simp add: step_def)
next
  case (VerifyInvitation e code)
  have "sound (serve (database s, verify_invitation e (database s) code) s)"
    by (rule sound_serve_quiet [OF assms]) simp_all
  then show ?thesis by (simp add: VerifyInvitation step_def)
next
  case (AdminList e k)
  have "sound (serve (database s, admin_list_invitations cfg e (database s) k) s)"
    by (rule sound_serve_quiet [OF assms]) simp_all
  then show ?thesis by (simp add: AdminList step_def)
next
  case (GetAccounts e h)
  have "sound (serve (database s, get_accounts wire cfg e (database s) h) s)"
    by (rule sound_serve_quiet [OF assms]) simp_all
  then show ?thesis by (simp add: GetAccounts step_def)
next
  case (AdminCreate e k b)
  obtain d' res where out: "admin_create_invitation cfg e (database s) k b = (d', res)"
    by (cases "admin_create_invitation cfg e (database s) k b")
  have "sound (serve (d', res) s)"
    using admin_create_cases [OF out]
  proof
    assume "users d' = users (database s) \<and> invitation_codes d' = invitation_codes (database s)
            \<and> invitation_codes_id_seq (database s) \<le> invitation_codes_id_seq d' \<and> status res \<noteq> 201"
    then show ?thesis by (intro sound_serve_quiet [OF assms]) simp_all
  next
    assume "\<exists>row. res = Response 201 (Created ''Invitation code created'' row)
            \<and> users d' = users (database s) \<and> invitation_codes d' = invitation_codes (database s) @ [row]
            \<and> i_id row = invitation_codes_id_seq (database s)
            \<and> invitation_codes_id_seq d' = invitation_codes_id_seq (database s) + 1
            \<and> \<not> i_used row \<and> i_used_by row = None \<and> i_used_at row = None"
    then obtain row where row: "users d' = users (database s)"
      "invitation_codes d' = invitation_codes (database s) @ [row]"
      "i_id row = invitation_codes_id_seq (database s)"
      "invitation_codes_id_seq d' = invitation_codes_id_seq (database s) + 1"
      "\<not> i_used row" "i_used_by row = None" "i_used_at row = None" by blast
    show ?thesis
      by (rule sound_created [OF assms, of _ row]) (simp_all add: serve_simps codes_def row)
  qed
  then show ?thesis by (simp add: AdminCreate step_def out)
next
  case (Exchange e h t)
  obtain d' res where out: "exchange_public_token wire cfg e (database s) h t = (d', res)"
    by (cases "exchange_public_token wire cfg e (database s) h t")
  have "sound (serve (d', res) s)"
    using exchange_keeps [OF out] by (intro sound_serve_quiet [OF assms]) simp_all
  then show ?thesis by (simp add: Exchange step_def out)
qed

lemma run_snoc: "run wire cfg s (evs @ [ev]) = step wire cfg (run wire cfg s evs) ev"
  by (simp add: run_def)

lemma sound_run: "sound s \<Longrightarrow> sound (run wire cfg s evs)"
  by (induction evs rule: rev_induct) (simp_all add: run_def sound_step)

lemma step_cases:
  obtains (kept) "codes (step wire cfg s ev) = codes s"
  | (created) e k b row where "ev = AdminCreate e k b"
      "codes (step wire cfg s ev) = codes s @ [row]"
      "\<not> i_used row" "i_used_by row = None" "i_used_at row = None"
  | (redeemed) i e b r0 res ph where "ev = Advance i e" "i < length (requests s)"
      "requests s ! i = Validated b r0" "status res = 201 \<longleftrightarrow> JWT_SECRET cfg \<noteq> []"
      "requests (step wire cfg s ev) = (requests s)[i := Done res]"
      "database (step wire cfg s ev) = committed e (database s) (i_email r0) ph r0"
      "\<forall>u \<in> set (users (database s)). u_email u \<noteq> i_email r0"
proof (cases ev)
  case (Submit b)
  then show ?thesis using kept by (simp add: step_def codes_def)
next
  case (VerifyInvitation e code)
  then show ?thesis using kept by (simp add: step_def codes_def serve_simps)
next
  case (AdminList e k)
  then show ?thesis using kept by (simp add: step_def codes_def serve_simps)
next
  case (GetAccounts e h)
  then show ?thesis using kept by (simp add: step_def codes_def serve_simps)
next
  case (Exchange e h t)
  obtain d' res where out: "exchange_public_token wire cfg e (database s) h t = (d', res)"
    by (cases "exchange_public_token wire cfg e (database s) h t")
  from exchange_keeps [OF out] show ?thesis
    using kept Exchange out by (simp add: step_def codes_def serve_simps)
next
  case (AdminCreate e k b)
  obtain d' res where out: "admin_create_invitation cfg e (database s) k b = (d', res)"
    by (cases "admin_create_invitation cfg e (database s) k b")
  have c: "codes (step wire cfg s ev) = invitation_codes d'"
    by (simp add: AdminCreate step_def codes_def serve_simps out)
  from admin_create_cases [OF out] show ?thesis
  proof
    assume "users d' = users (database s) \<and> invitation_codes d' = invitation_codes (database s)
            \<and> invitation_codes_id_seq (database s) \<le> invitation_codes_id_seq d' \<and> status res \<noteq> 201"
    then show ?thesis using kept c by (simp add: codes_def)
  next
    assume "\<exists>row. res = Response 201 (Created ''Invitation code created'' row)
            \<and> users d' = users (database s) \<and> invitation_codes d' = invitation_codes (database s) @ [row]
            \<and> i_id row = invitation_codes_id_seq (database s)
            \<and> invitation_codes_id_seq d' = invitation_codes_id_seq (database s) + 1
            \<and> \<not> i_used row \<and> i_used_by row = None \<and> i_used_at row = None"
    then obtain row where "invitation_codes d' = invitation_codes (database s) @ [row]"
      "\<not> i_used row" "i_used_by row = None" "i_used_at row = None" by (elim exE conjE)
    then show ?thesis using created [of e k b row] AdminCreate c by (simp add: codes_def)
  qed
next
  case (Advance i e)
  have st: "step wire cfg s ev = advance cfg i e s" by (simp add: Advance step_def)
  show ?thesis
  proof (cases rule: advance_cases [of cfg i e s])
    case idle
    then show ?thesis using kept st by simp
  next
    case (checked b q)
    then show ?thesis using kept st by (simp add: codes_def)
  next
    case (handled b r0 d' res)
    from handled(3) show ?thesis
    proof (cases rule: register_handler_cases)
      case early
      then show ?thesis using kept st handled(4) by (simp add: codes_def)
    next
      case (late ph)
      show ?thesis
        using redeemed [of i e b r0 res ph] Advance handled(1,2) late st handled(4)
        by simp
    qed
  qed
qed

lemma coherent_step:
  assumes "\<forall>row \<in> set (codes s). coherent row"
  shows "\<forall>row \<in> set (codes (step wire cfg s ev)). coherent row"
proof (cases rule: step_cases [of wire cfg s ev])
  case kept
  with assms show ?thesis by simp
next
  case (created e k b row)
  then have "coherent row" by (simp add: coherent_def)
  with assms created(2) show ?thesis by simp
next
  case (redeemed i e b r0 res ph)
  then have "codes (step wire cfg s ev) = redeem e (database s) r0"
    by (simp add: codes_def committed_tables)
  with assms show ?thesis by (auto simp: redeem_def codes_def coherent_mark_used)
qed

lemma lifecycle_step_sound:
  assumes s: "sound s"
  shows "lifecycle_step cfg s ev (step wire cfg s ev)"
proof (cases rule: step_cases [of wire cfg s ev])
  case kept
  then show ?thesis by (simp add: lifecycle_step_def)
next
  case (created e k b row)
  then show ?thesis by (simp add: lifecycle_step_def nth_append)
next
  case (redeemed i e b r0 res ph)
  let ?d = "database s" and ?s' = "step wire cfg s ev"
  have c': "invitation_codes (database ?s') = redeem e ?d r0"
    using redeemed(6) by (simp add: committed_tables)
  from s redeemed(2,3) have "holds_row ?d (Validated b r0)"
    by (metis nth_mem sound_def)
  then obtain held where held: "held \<in> set (invitation_codes ?d)" "i_id held = i_id r0"
    "i_email held = i_email r0"
    by (auto simp: holds_row_simps)
  have ids: "distinct (map i_id (invitation_codes ?d))" using s by (simp add: sound_def codes_def)
  have same_id: "i_email row = i_email r0"
    if "row \<in> set (invitation_codes ?d)" "i_id row = i_id r0" for row
    using that held ids by (metis distinct_map inj_onD)
  have row: "(i_used (codes s ! k) \<longrightarrow> codes ?s' ! k = codes s ! k)
          \<and> (\<not> i_used (codes s ! k) \<and> i_used (codes ?s' ! k) \<longrightarrow> redeemed_by cfg s ev ?s' k)"
    if k: "k < length (codes s)" for k
  proof -
    let ?old = "codes s ! k"
    have mem: "?old \<in> set (invitation_codes ?d)" using k by (simp add: codes_def)
    have new: "codes ?s' ! k =
        (if i_id ?old = i_id r0 then mark_used (users_id_seq ?d) (clock e) ?old else ?old)"
      using k by (simp add: codes_def c' redeem_nth)
    show ?thesis
    proof (cases "i_id ?old = i_id r0")
      case False
      with new show ?thesis by simp
    next
      case True
      with mem same_id have mail: "i_email ?old = i_email r0" by simp
      have unused: "\<not> i_used ?old"
      proof
        assume "i_used ?old"
        with s mem have "i_email ?old \<in> u_email ` set (users ?d)"
          by (auto simp: sound_def codes_def)
        with mail redeemed(7) show False by auto
      qed
      let ?u = "added_user e ?d (i_email r0) ph"
      have "?u \<in> set (users (database ?s'))" by (simp add: redeemed(6) committed_tables)
      moreover have "u_id ?u = users_id_seq ?d" "u_email ?u = i_email ?old"
        by (simp_all add: added_user_def mail)
      moreover have "?u \<notin> set (users ?d)"
        using redeemed(7) by (auto simp: added_user_def)
      ultimately have "\<exists>u \<in> set (users (database ?s')).
           u_id u = users_id_seq ?d \<and> u_email u = i_email ?old \<and> u \<notin> set (users ?d)"
        by blast
      then have "redeemed_by cfg s ev ?s' k"
        using redeemed(1-5) True new
        by (simp add: redeemed_by_def)
      with unused show ?thesis by simp
    qed
  qed
  have "length (codes s) \<le> length (codes ?s')" by (simp add: codes_def c' redeem_length)
  with row show ?thesis by (simp add: lifecycle_step_def)
qed

lemma run_append: "run wire cfg s (evs @ later) = run wire cfg (run wire cfg s evs) later"
  by (simp add: run_def)

lemma used_rows_frozen:
  assumes "sound s"
  shows "length (codes s) \<le> length (codes (run wire cfg s later))
       \<and> (\<forall>k < length (codes s). i_used (codes s ! k) \<longrightarrow> codes (run wire cfg s later) ! k = codes s ! k)"
proof (induction later rule: rev_induct)
  case Nil
  show ?case by (simp add: run_def)
next
  case (snoc ev later)
  let ?m = "run wire cfg s later"
  have "sound ?m" using assms by (rule sound_run)
  then have "lifecycle_step cfg ?m ev (step wire cfg ?m ev)" by (rule lifecycle_step_sound)
  with snoc show ?case
    by (auto simp: run_snoc lifecycle_step_def)
qed

section \<open>Lemmas on races\<close>

lemma count_update:
  assumes "i < length xs" and "\<not> P (xs ! i)"
  shows "length (filter P (xs[i := y])) = length (filter P xs) + (if P y then 1 else 0)"
  using assms
proof (induction xs arbitrary: i)
  case Nil
  then show ?case by simp
next
  case (Cons x xs)
  then show ?case by (cases i) auto
qed

lemma succeeded_update:
  assumes "i < length qs" and "\<not> succeeded (qs ! i)"
  shows "length (filter succeeded (qs[i := q])) =
     length (filter succeeded qs) + (if succeeded q then 1 else 0)"
  using assms by (rule count_update)

lemma validateInvitation_lookup:
  assumes "validateInvitation e d code = Inr row"
  shows "\<exists>c. code = Some c \<and> lookup c d = Some row"
proof -
  from assms obtain rest where "select_invitation (the code) d = row # rest" and "\<not> falsy code"
    by (auto simp: validateInvitation_def split: if_splits option.splits list.splits)
  then show ?thesis by (cases code) (simp_all add: lookup_select falsy_def)
qed

lemma lookup_same:
  "invitation_codes d' = invitation_codes d \<Longrightarrow> lookup c d' = lookup c d"
  by (simp add: lookup_def)

lemma find_map_keep:
  assumes "\<And>x. P (f x) = P x"
  shows "find P (map f xs) = map_option f (find P xs)"
  by (induction xs) (simp_all add: assms)

lemma lookup_committed:
  "lookup c (committed e d em ph r0) =
     map_option (\<lambda>row. if i_id row = i_id r0 then mark_used (users_id_seq d) (clock e) row else row)
       (lookup c d)"
  unfolding lookup_def committed_tables redeem_def
  by (rule find_map_keep) (simp add: mark_used_keeps)

lemma entered_simps:
  "entered c d (Pending b) \<longleftrightarrow> invitationCode b = Some c"
  "entered c d (Validated b r) \<longleftrightarrow> (\<exists>r'. lookup c d = Some r' \<and> i_email r = i_email r')"
  "entered c d (Done res)"
  by (simp_all add: entered_def)

lemma contest_start:
  assumes "\<forall>b \<in> set bs. invitationCode b = Some c"
  shows "contest cfg c d (attempts d bs)"
proof -
  have "filter succeeded (map Pending bs) = []"
    by (induction bs) (simp_all add: succeeded_def)
  with assms show ?thesis by (simp add: contest_def attempts_def entered_simps)
qed

lemma contest_advance:
  assumes inv: "contest cfg c d0 s"
  shows "contest cfg c d0 (advance cfg i e s)"
proof (cases rule: advance_cases [of cfg i e s])
  case idle
  with inv show ?thesis by simp
next
  case (checked b q)
  from inv checked(1) have "entered c (database s) (requests s ! i)"
    by (simp add: contest_def)
  then have code: "invitationCode b = Some c" by (simp add: checked(2) entered_simps)
  have nq: "\<not> succeeded q"
    using checked(4) by (auto simp: succeeded_def validateInvitation_def
        split: if_splits option.splits list.splits)
  have np: "\<not> succeeded (requests s ! i)" by (simp add: checked(2) succeeded_def)
  have cnt: "length (filter succeeded ((requests s)[i := q])) = length (filter succeeded (requests s))"
    using succeeded_update [OF checked(1) np, of q] nq by simp
  have q: "entered c (database s) q"
    using checked(4) validateInvitation_lookup [of e "database s" "invitationCode b"] code
    by (auto simp: entered_simps)
  have "\<forall>x \<in> set (requests s). entered c (database s) x"
    using inv by (simp add: contest_def)
  then have "\<forall>x \<in> set ((requests s)[i := q]). entered c (database s) x"
    using q by (rule ball_update)
  with inv cnt show ?thesis
    unfolding checked(3) by (simp add: contest_def)
next
  case (handled b r0 d' res)
  let ?d = "database s"
  from inv handled(1) have "entered c ?d (requests s ! i)"
    by (simp add: contest_def)
  then obtain r' where head: "lookup c ?d = Some r'" "i_email r0 = i_email r'"
    by (auto simp: handled(2) entered_simps)
  have np: "\<not> succeeded (requests s ! i)" by (simp add: handled(2) succeeded_def)
  have cnt: "length (filter succeeded ((requests s)[i := Done res])) =
      length (filter succeeded (requests s)) + (if status res = 201 then 1 else 0)"
    using succeeded_update [OF handled(1) np, of "Done res"] by (simp add: succeeded_def)
  have old: "\<forall>x \<in> set (requests s). entered c ?d x"
    using inv by (simp add: contest_def)
  from handled(3) show ?thesis
  proof (cases rule: register_handler_cases)
    case early
    note False = early(4)
    have same: "users d' = users ?d" "invitation_codes d' = invitation_codes ?d"
      using early by simp_all
    have look: "lookup c d' = lookup c ?d" using same(2) by (rule lookup_same)
    have "entered c d' x = entered c ?d x" for x
      using look by (cases x) (simp_all add: entered_simps)
    with old have "\<forall>x \<in> set (requests s). entered c d' x" by simp
    then have "\<forall>x \<in> set ((requests s)[i := Done res]). entered c d' x"
      by (rule ball_update) (simp add: entered_simps)
    with inv cnt False same(1) look show ?thesis
      unfolding handled(4) by (simp add: contest_def)
  next
    case (late ph)
    note free = late(1) and d' = late(2)
    have fresh: "length (users ?d) = length (users d0)"
    proof (rule ccontr)
      assume "length (users ?d) \<noteq> length (users d0)"
      with inv have "\<exists>r'. lookup c ?d = Some r' \<and> i_email r' \<in> u_email ` set (users ?d)"
        by (simp add: contest_def)
      with head free show False by auto
    qed
    have "length (users d0) + length (filter succeeded (requests s)) \<le> length (users ?d)"
      using inv by (simp add: contest_def)
    with fresh have none: "length (filter succeeded (requests s)) = 0" by arith
    let ?f = "\<lambda>row. if i_id row = i_id r0 then mark_used (users_id_seq ?d) (clock e) row else row"
    have look: "lookup c d' = Some (?f r')" by (simp add: d' lookup_committed head(1))
    have mail: "i_email (?f r') = i_email r0" by (simp add: mark_used_keeps head(2))
    have reg: "i_email (?f r') \<in> u_email ` set (users d')"
      unfolding mail by (simp add: d' committed_tables added_user_def)
    have "\<forall>x \<in> set (requests s). entered c d' x"
    proof
      fix x assume "x \<in> set (requests s)"
      with old have "entered c ?d x" by blast
      then show "entered c d' x"
        using head look mail by (cases x) (auto simp: entered_simps)
    qed
    then have "\<forall>x \<in> set ((requests s)[i := Done res]). entered c d' x"
      by (rule ball_update) (simp add: entered_simps)
    moreover have "length (users d') = length (users d0) + 1"
      using fresh by (simp add: d' committed_tables)
    ultimately show ?thesis
      unfolding handled(4) using cnt late(3) none look reg by (simp add: contest_def)
  qed
qed

lemma race_snoc: "race cfg s (schedule @ [(i, e)]) = advance cfg i e (race cfg s schedule)"
  by (simp add: race_def)

lemma contest_race:
  assumes "\<forall>b \<in> set bs. invitationCode b = Some c"
  shows "contest cfg c d (race cfg (attempts d bs) schedule)"
proof (induction schedule rule: rev_induct)
  case Nil
  show ?case using contest_start [OF assms] by (simp add: race_def)
next
  case (snoc x schedule)
  obtain i e where "x = (i, e)" by (cases x)
  with snoc show ?case by (simp add: race_snoc contest_advance)
qed

lemma in_race_simps:
  "in_race bs r0 (Pending b) \<longleftrightarrow> b \<in> set bs"
  "in_race bs r0 (Validated b r) \<longleftrightarrow> b \<in> set bs \<and> i_id r = i_id r0 \<and> i_email r = i_email r0"
  "in_race bs r0 (Done res) \<longleftrightarrow> succeeded (Done res) \<or> lost (Done res)"
  by (simp_all add: in_race_def)

lemma no_finished_no_success:
  "\<forall>q \<in> set qs. \<not> finished q \<Longrightarrow> filter succeeded qs = []"
  by (induction qs) (auto simp: finished_def succeeded_def split: request_state.splits)

lemma lookup_first:
  "lookup c d = Some r \<Longrightarrow> \<exists>rest. select_invitation c d = r # rest"
  by (auto simp: lookup_select split: list.splits)

lemma mark_used_expires: "i_expires_at (mark_used uid now row) = i_expires_at row"
  by (simp add: mark_used_def)

lemma handler_when_calm:
  assumes "faultless e" and "email b = Some (i_email r)"
    and "bcrypt_hash e (password b) 12 = Inr ph"
    and "JWT_SECRET cfg \<noteq> []"
  shows "register_handler cfg e d b r =
     (if \<exists>u \<in> set (users d). u_email u = i_email r
        then (bump d, Response 400 (ErrorMsg ''Email already registered''))
      else (committed e d (i_email r) ph r,
            Response 201 (Registered ''Registration successful''
              (issue_token cfg (clock e) (users_id_seq d) (i_email r)) (users_id_seq d) (i_email r))))"
  using assms
  by (simp add: register_handler_eq faultless_def thrown_def register_catch_def unique_violation_def)

lemma orderly_advance:
  assumes inv: "orderly c bs r0 s"
    and c: "c \<noteq> []"
    and bodies: "\<forall>b \<in> set bs. invitationCode b = Some c \<and> email b = Some (i_email r0)"
    and calm: "faultless e" and fresh: "\<not> expired (clock e) r0"
    and hash: "\<forall>b \<in> set bs. \<exists>ph. bcrypt_hash e (password b) 12 = Inr ph"
    and secret: "JWT_SECRET cfg \<noteq> []"
  shows "orderly c bs r0 (advance cfg i e s)"
proof (cases rule: advance_cases [of cfg i e s])
  case idle
  with inv show ?thesis by simp
next
  case (checked b q)
  let ?d = "database s"
  from inv obtain r' where head: "lookup c ?d = Some r'" "i_id r' = i_id r0"
    "i_email r' = i_email r0" "i_expires_at r' = i_expires_at r0"
    and phase: "i_used r' \<longrightarrow>
                  (\<exists>u \<in> set (users ?d). u_email u = i_email r0)
                  \<and> length (filter succeeded (requests s)) = 1"
               "\<not> i_used r' \<longrightarrow>
                  (\<forall>u \<in> set (users ?d). u_email u \<noteq> i_email r0)
                  \<and> (\<forall>q \<in> set (requests s). \<not> finished q)"
    by (auto simp: orderly_def)
  have all: "\<forall>x \<in> set (requests s). in_race bs r0 x" using inv by (simp add: orderly_def)
  with checked(1) have "in_race bs r0 (requests s ! i)" by simp
  then have b: "b \<in> set bs" by (simp add: checked(2) in_race_simps)
  with bodies have code: "invitationCode b = Some c" by simp
  from lookup_first [OF head(1)] obtain rest where sel: "select_invitation c ?d = r' # rest" ..
  have ex: "expired (clock e) r' = expired (clock e) r0" by (simp add: expired_def head(4))
  have val: "validateInvitation e ?d (invitationCode b) =
      (if i_used r' then Inl (refusal ALREADY_USED) else Inr r')"
    using validateInvitation_present [OF c, of e ?d] calm sel ex fresh
    by (simp add: code faultless_def)
  have np: "\<not> succeeded (requests s ! i)" by (simp add: checked(2) succeeded_def)
  show ?thesis
  proof (cases "i_used r'")
    case True
    with val checked(4) have q: "q = Done (Response 400 (ErrorMsg ''Invitation code already used''))"
      by (auto simp: refusal_def)
    then have "in_race bs r0 q" by (simp add: in_race_simps lost_def)
    with all have "\<forall>x \<in> set ((requests s)[i := q]). in_race bs r0 x" by (rule ball_update)
    moreover have "length (filter succeeded ((requests s)[i := q])) =
        length (filter succeeded (requests s))"
      using succeeded_update [OF checked(1) np, of q] q by (simp add: succeeded_def)
    ultimately show ?thesis
      unfolding checked(3) using head phase True by (auto simp: orderly_def)
  next
    case False
    with val checked(4) have q: "q = Validated b r'" by auto
    then have "in_race bs r0 q" using b head by (simp add: in_race_simps)
    with all have one: "\<forall>x \<in> set ((requests s)[i := q]). in_race bs r0 x" by (rule ball_update)
    from phase False have "\<forall>x \<in> set (requests s). \<not> finished x" by simp
    then have "\<forall>x \<in> set ((requests s)[i := q]). \<not> finished x"
      by (rule ball_update) (simp add: q finished_def)
    with one show ?thesis
      unfolding checked(3) using head phase False by (auto simp: orderly_def)
  qed
next
  case (handled b r d' res)
  let ?d = "database s"
  from inv obtain r' where head: "lookup c ?d = Some r'" "i_id r' = i_id r0"
    "i_email r' = i_email r0" "i_expires_at r' = i_expires_at r0"
    and phase: "i_used r' \<longrightarrow>
                  (\<exists>u \<in> set (users ?d). u_email u = i_email r0)
                  \<and> length (filter succeeded (requests s)) = 1"
               "\<not> i_used r' \<longrightarrow>
                  (\<forall>u \<in> set (users ?d). u_email u \<noteq> i_email r0)
                  \<and> (\<forall>q \<in> set (requests s). \<not> finished q)"
    by (auto simp: orderly_def)
  have all: "\<forall>x \<in> set (requests s). in_race bs r0 x" using inv by (simp add: orderly_def)
  with handled(1) have "in_race bs r0 (requests s ! i)" by simp
  then have b: "b \<in> set bs" and r: "i_id r = i_id r0" "i_email r = i_email r0"
    by (simp_all add: handled(2) in_race_simps)
  from b bodies r have mail: "email b = Some (i_email r)" by simp
  from b hash obtain ph where ph: "bcrypt_hash e (password b) 12 = Inr ph" by blast
  note out = handler_when_calm [OF calm mail ph secret, of ?d]
  have np: "\<not> succeeded (requests s ! i)" by (simp add: handled(2) succeeded_def)
  show ?thesis
  proof (cases "i_used r'")
    case True
    with phase r have taken: "\<exists>u \<in> set (users ?d). u_email u = i_email r" by simp
    with out handled(3) have d': "d' = bump ?d"
      and res: "res = Response 400 (ErrorMsg ''Email already registered'')" by simp_all
    have "in_race bs r0 (Done res)" by (simp add: res in_race_simps lost_def)
    with all have "\<forall>x \<in> set ((requests s)[i := Done res]). in_race bs r0 x"
      by (rule ball_update)
    moreover have "length (filter succeeded ((requests s)[i := Done res])) =
        length (filter succeeded (requests s))"
      using succeeded_update [OF handled(1) np, of "Done res"] by (simp add: res succeeded_def)
    moreover have "lookup c d' = lookup c ?d" "users d' = users ?d"
      by (simp_all add: d' bump_def lookup_def)
    ultimately show ?thesis
      unfolding handled(4) using head phase True by (auto simp: orderly_def)
  next
    case False
    with phase r have free: "\<not> (\<exists>u \<in> set (users ?d). u_email u = i_email r)"
      and quiet: "\<forall>x \<in> set (requests s). \<not> finished x" by simp_all
    with out handled(3) have d': "d' = committed e ?d (i_email r) ph r"
      and res: "status res = 201" by auto
    have "in_race bs r0 (Done res)" by (simp add: res in_race_simps succeeded_def)
    with all have one: "\<forall>x \<in> set ((requests s)[i := Done res]). in_race bs r0 x"
      by (rule ball_update)
    have "filter succeeded (requests s) = []" using quiet by (rule no_finished_no_success)
    then have cnt: "length (filter succeeded ((requests s)[i := Done res])) = 1"
      using succeeded_update [OF handled(1) np, of "Done res"] by (simp add: res succeeded_def)
    have look: "lookup c d' = Some (mark_used (users_id_seq ?d) (clock e) r')"
      by (simp add: d' lookup_committed head r)
    have reg: "\<exists>u \<in> set (users d'). u_email u = i_email r0"
      by (simp add: d' committed_tables added_user_def r)
    show ?thesis
      unfolding handled(4) using one cnt look reg head
      by (simp add: orderly_def mark_used_keeps mark_used_expires)
  qed
qed

lemma advance_length: "length (requests (advance cfg i e s)) = length (requests s)"
  by (cases rule: advance_cases [of cfg i e s]) simp_all

lemma race_length: "length (requests (race cfg s schedule)) = length (requests s)"
  by (induction schedule rule: rev_induct) (auto simp: race_def advance_length)

lemma orderly_start:
  assumes "lookup c d = Some r0" and "\<not> i_used r0"
    and "\<forall>u \<in> set (users d). u_email u \<noteq> i_email r0"
  shows "orderly c bs r0 (attempts d bs)"
  using assms by (auto simp: orderly_def attempts_def in_race_simps finished_def)

lemma orderly_race:
  assumes "lookup c d = Some r0" and "\<not> i_used r0"
    and "\<forall>u \<in> set (users d). u_email u \<noteq> i_email r0"
    and "c \<noteq> []"
    and "\<forall>b \<in> set bs. invitationCode b = Some c \<and> email b = Some (i_email r0)"
    and "\<forall>(i, e) \<in> set schedule. faultless e \<and> \<not> expired (clock e) r0
           \<and> (\<forall>b \<in> set bs. \<exists>ph. bcrypt_hash e (password b) 12 = Inr ph)"
    and "JWT_SECRET cfg \<noteq> []"
  shows "orderly c bs r0 (race cfg (attempts d bs) schedule)"
  using assms(6)
proof (induction schedule rule: rev_induct)
  case Nil
  show ?case using orderly_start [OF assms(1-3)] by (simp add: race_def)
next
  case (snoc x schedule)
  obtain i e where x: "x = (i, e)" by (cases x)
  from snoc.prems x have e: "faultless e" "\<not> expired (clock e) r0"
    "\<forall>b \<in> set bs. \<exists>ph. bcrypt_hash e (password b) 12 = Inr ph" by simp_all
  from snoc have "orderly c bs r0 (race cfg (attempts d bs) schedule)" by simp
  then have "orderly c bs r0 (advance cfg i e (race cfg (attempts d bs) schedule))"
    using assms(4,5) e assms(7) by (rule orderly_advance)
  then show ?case by (simp add: x race_snoc)
qed

lemma orderly_end:
  assumes "orderly c bs r0 s" and "requests s \<noteq> []" and "\<forall>q \<in> set (requests s). finished q"
  shows "length (filter succeeded (requests s)) = 1 \<and> (\<forall>q \<in> set (requests s). succeeded q \<or> lost q)"
proof -
  from assms(1) have "\<exists>r'. lookup c (database s) = Some r' \<and> i_id r' = i_id r0
         \<and> i_email r' = i_email r0 \<and> i_expires_at r' = i_expires_at r0
         \<and> (i_used r' \<longrightarrow>
              (\<exists>u \<in> set (users (database s)). u_email u = i_email r0)
              \<and> length (filter succeeded (requests s)) = 1)
         \<and> (\<not> i_used r' \<longrightarrow>
              (\<forall>u \<in> set (users (database s)). u_email u \<noteq> i_email r0)
              \<and> (\<forall>q \<in> set (requests s). \<not> finished q))"
    by (simp add: orderly_def)
  then obtain r' where "lookup c (database s) = Some r' \<and> i_id r' = i_id r0
         \<and> i_email r' = i_email r0 \<and> i_expires_at r' = i_expires_at r0
         \<and> (i_used r' \<longrightarrow>
              (\<exists>u \<in> set (users (database s)). u_email u = i_email r0)
              \<and> length (filter succeeded (requests s)) = 1)
         \<and> (\<not> i_used r' \<longrightarrow>
              (\<forall>u \<in> set (users (database s)). u_email u \<noteq> i_email r0)
              \<and> (\<forall>q \<in> set (requests s). \<not> finished q))" ..
  then have phase: "i_used r' \<longrightarrow> length (filter succeeded (requests s)) = 1"
      "\<not> i_used r' \<longrightarrow> (\<forall>q \<in> set (requests s). \<not> finished q)"
    by simp_all
  from assms(2) obtain q where q: "q \<in> set (requests s)" by (cases "requests s") auto
  with assms(3) have "finished q" by simp
  with q phase have one: "length (filter succeeded (requests s)) = 1"
    by (cases "i_used r'") auto
  have "succeeded x \<or> lost x" if "x \<in> set (requests s)" for x
  proof -
    from that assms(1) have "in_race bs r0 x" by (simp add: orderly_def)
    moreover from that assms(3) have "finished x" by simp
    ultimately show ?thesis by (cases x) (simp_all add: in_race_simps finished_def)
  qed
  with one show ?thesis by simp
qed

section \<open>Lemmas on the sample world\<close>

lemma db_spent_tables:
  "users db_spent = [\<lparr>u_id = 1, u_email = ''a@x.com'', u_password_hash = ''$2b$secret1'', u_created_at = 5\<rparr>]
   \<and> invitation_codes db_spent = [mark_used 1 5 abc123]"
  by (simp add: db_spent_def committed_def added_user_def redeem_def db_abc_def createTables_def
      calm_def abc123_def)

lemma select_spent: "select_invitation ''ABC123'' db_spent = [mark_used 1 5 abc123]"
  by (simp add: select_invitation_def db_spent_tables mark_used_def abc123_def)

lemma select_abc: "select_invitation ''ABC123'' db_abc = [abc123]"
  by (simp add: select_invitation_def db_abc_def createTables_def abc123_def)

lemma db_again_tables:
  "users db_again = users db_spent
   \<and> invitation_codes db_again = [mark_used 1 5 abc123, def456]"
  by (simp add: db_again_def db_spent_tables)

lemma validate_def456: "validateInvitation (calm 7) db_again (Some ''DEF456'') = Inr def456"
  by (simp add: validateInvitation_def falsy_def calm_def select_invitation_def db_again_tables
      mark_used_def abc123_def def456_def expired_def)

lemma bearer_tok: "bearer (Some ''Bearer tok'') = Some ''tok''"
  using bearer_of_header [of "''tok''"] by simp

lemma accounts_of_alice:
  "get_accounts wire0 cfg0 (calm 9) db_linked (Some ''Bearer tok'') =
     Response 200 (Accounts
       [\<lparr>account_id = ''access-token-1'', account_name = ''Brokerage'',
         subtype = Some ''brokerage''\<rparr>])"
proof -
  have auth: "authenticateToken wire0 cfg0 9 (Some ''Bearer tok'') =
      Inr \<lparr>userId = 1, payload_email = ''a@x.com'', iat = 5, exp = 5 + seven_days\<rparr>"
    by (simp add: authenticateToken_cases bearer_tok falsy_def wire0_def issue_token_def
        jwt_sign_def cfg0_def seven_days_def)
  have toks: "select_access_tokens (Suc 0) db_linked = [''access-token'']"
    by (simp add: select_access_tokens_def db_linked_def)
  show ?thesis
    by (simp add: get_accounts_def accounts_handler_def auth toks calm_def investment_subtype_def)
qed

lemma handler_update_fails:
  "register_handler cfg0 ((calm 5)\<lparr>q_update := Some (JsError None)\<rparr>) db_abc alice abc123 =
     (bump db_abc, Response 500 (ErrorMsg ''Registration failed''))"
  by (simp add: register_handler_eq calm_def alice_def abc123_def db_abc_def createTables_def
      register_catch_def thrown_def)

lemma validate_abc: "validateInvitation (calm 5) db_abc (Some ''ABC123'') = Inr abc123"
  by (simp add: validateInvitation_def falsy_def calm_def select_invitation_def db_abc_def
      createTables_def abc123_def expired_def)

lemma after_history:
  "run wire0 cfg0 boot history =
     \<lparr>database = db_abc, requests = [Validated alice abc123],
      sent = [Response 201 (Created ''Invitation code created'' abc123)]\<rparr>"
proof -
  have a: "admin_create_invitation cfg0 (calm 0) createTables (Some ''letmein'')
        \<lparr>new_code = Some ''ABC123'', new_email = Some ''a@x.com'', expiresInDays = None\<rparr> =
      (db_abc, Response 201 (Created ''Invitation code created'' abc123))"
    by (simp add: admin_create_invitation_def valid_date_def insert_invitation_def cfg0_def falsy_def calm_def
        createTables_def db_abc_def abc123_def Let_def)
  have b: "invitationCode alice = Some ''ABC123''" by (simp add: alice_def)
  show ?thesis
    by (simp add: history_def run_def step_def boot_def a serve_def advance_def b validate_abc)
qed

lemma cfg0_secret: "JWT_SECRET cfg0 \<noteq> []"
  by (simp add: cfg0_def)

lemma alice_registers:
  "register_handler cfg0 (calm 5) db_abc alice abc123 =
     (db_spent, Response 201 (Registered ''Registration successful''
        (issue_token cfg0 5 1 ''a@x.com'') 1 ''a@x.com''))"
  by (simp add: register_handler_eq alice_def abc123_def calm_def db_spent_def db_abc_def
      createTables_def cfg0_secret)

lemma alice_unsigned:
  "register_handler no_secret (calm 5) db_abc alice abc123 =
     (db_spent, Response 500 (ErrorMsg ''Registration failed''))"
  by (simp add: register_handler_eq alice_def abc123_def calm_def db_spent_def db_abc_def
      createTables_def no_secret_def register_catch_def thrown_def)

lemma after_registration:
  "step wire0 cfg0 (run wire0 cfg0 boot history) (Advance 0 (calm 5)) =
     \<lparr>database = db_spent,
      requests = [Done (Response 201 (Registered ''Registration successful''
        (issue_token cfg0 5 1 ''a@x.com'') 1 ''a@x.com''))],
      sent = [Response 201 (Created ''Invitation code created'' abc123)]\<rparr>"
  by (simp add: after_history step_def advance_def alice_registers)

lemma after_history_unsigned:
  "run wire0 no_secret boot history =
     \<lparr>database = db_abc, requests = [Validated alice abc123],
      sent = [Response 201 (Created ''Invitation code created'' abc123)]\<rparr>"
proof -
  have a: "admin_create_invitation no_secret (calm 0) createTables (Some ''letmein'')
        \<lparr>new_code = Some ''ABC123'', new_email = Some ''a@x.com'', expiresInDays = None\<rparr> =
      (db_abc, Response 201 (Created ''Invitation code created'' abc123))"
    by (simp add: admin_create_invitation_def valid_date_def insert_invitation_def no_secret_def
        cfg0_def falsy_def calm_def createTables_def db_abc_def abc123_def Let_def)
  have b: "invitationCode alice = Some ''ABC123''" by (simp add: alice_def)
  show ?thesis
    by (simp add: history_def run_def step_def boot_def a serve_def advance_def b validate_abc)
qed

lemma after_registration_unsigned:
  "step wire0 no_secret (run wire0 no_secret boot history) (Advance 0 (calm 5)) =
     \<lparr>database = db_spent,
      requests = [Done (Response 500 (ErrorMsg ''Registration failed''))],
      sent = [Response 201 (Created ''Invitation code created'' abc123)]\<rparr>"
  by (simp add: after_history_unsigned step_def advance_def alice_unsigned)

lemma lookup_abc: "lookup ''ABC123'' db_abc = Some abc123"
  by (simp add: lookup_select select_abc)

lemma calm_faultless:
  "faultless (calm t)" "clock (calm t) = t"
  "bcrypt_hash (calm t) (Some pw) 12 = Inr (''$2b$'' @ pw)"
  by (simp_all add: faultless_def calm_def)

lemma alice_loses:
  "register_handler cfg0 (calm 6) db_spent alice abc123 =
     (bump db_spent, Response 400 (ErrorMsg ''Email already registered''))"
proof -
  have "email alice = Some (i_email abc123)" by (simp add: alice_def abc123_def)
  moreover have "bcrypt_hash (calm 6) (password alice) 12 = Inr ''$2b$secret1''"
    by (simp add: alice_def calm_def)
  moreover have "\<exists>u \<in> set (users db_spent). u_email u = i_email abc123"
    by (simp add: db_spent_tables abc123_def)
  ultimately show ?thesis
    using handler_when_calm [of "calm 6" alice abc123 "''$2b$secret1''" cfg0 db_spent]
      calm_faultless(1) [of 6] cfg0_secret
    by simp
qed

lemma two_attempts:
  "race cfg0 (attempts db_abc [alice, alice]) [(0, calm 5), (1, calm 5), (1, calm 5), (0, calm 6)] =
     \<lparr>database = bump db_spent,
      requests =
        [Done (Response 400 (ErrorMsg ''Email already registered'')),
         Done (Response 201 (Registered ''Registration successful''
           (issue_token cfg0 5 1 ''a@x.com'') 1 ''a@x.com''))],
      sent = []\<rparr>"
proof -
  have b: "invitationCode alice = Some ''ABC123''" by (simp add: alice_def)
  show ?thesis
    by (simp add: race_def attempts_def advance_def b validate_abc alice_registers alice_loses)
qed

lemma alice_loses_unsigned:
  "register_handler no_secret (calm 6) db_spent alice abc123 =
     (bump db_spent, Response 400 (ErrorMsg ''Email already registered''))"
  by (simp add: register_handler_eq alice_def abc123_def calm_def db_spent_tables
      register_catch_def thrown_def unique_violation_def)

lemma two_attempts_unsigned:
  "race no_secret (attempts db_abc [alice, alice])
       [(0, calm 5), (1, calm 5), (1, calm 5), (0, calm 6)] =
     \<lparr>database = bump db_spent,
      requests =
        [Done (Response 400 (ErrorMsg ''Email already registered'')),
         Done (Response 500 (ErrorMsg ''Registration failed''))],
      sent = []\<rparr>"
proof -
  have b: "invitationCode alice = Some ''ABC123''" by (simp add: alice_def)
  show ?thesis
    by (simp add: race_def attempts_def advance_def b validate_abc alice_unsigned
        alice_loses_unsigned)
qed

lemma alice_again_loses:
  "register_handler cfg0 (calm 7) db_again alice_again def456 =
     (bump db_again, Response 400 (ErrorMsg ''Email already registered''))"
proof -
  have "email alice_again = Some (i_email def456)"
    by (simp add: alice_again_def alice_def def456_def)
  moreover have "bcrypt_hash (calm 7) (password alice_again) 12 = Inr ''$2b$secret1''"
    by (simp add: alice_again_def alice_def calm_def)
  moreover have "\<exists>u \<in> set (users db_again). u_email u = i_email def456"
    by (simp add: db_again_tables db_spent_tables def456_def)
  ultimately show ?thesis
    using handler_when_calm [of "calm 7" alice_again def456 "''$2b$secret1''" cfg0 db_again]
      calm_faultless(1) [of 7] cfg0_secret
    by simp
qed

lemma validate_def456_bumped:
  "validateInvitation (calm 7) (bump db_again) (Some ''DEF456'') = Inr def456"
  by (simp add: validateInvitation_def falsy_def calm_def select_invitation_def db_again_tables
      bump_def mark_used_def abc123_def def456_def expired_def)

lemma handler_bumped:
  "register_handler cfg0 (calm 7) (bump db_again) alice_again def456 =
     (bump (bump db_again), Response 400 (ErrorMsg ''Email already registered''))"
proof -
  have "email alice_again = Some (i_email def456)"
    by (simp add: alice_again_def alice_def def456_def)
  moreover have "bcrypt_hash (calm 7) (password alice_again) 12 = Inr ''$2b$secret1''"
    by (simp add: alice_again_def alice_def calm_def)
  moreover have "\<exists>u \<in> set (users (bump db_again)). u_email u = i_email def456"
    by (simp add: bump_def db_again_tables db_spent_tables def456_def)
  ultimately show ?thesis
    using handler_when_calm [of "calm 7" alice_again def456 "''$2b$secret1''" cfg0 "bump db_again"]
      calm_faultless(1) [of 7] cfg0_secret
    by simp
qed

section \<open>The used flag of an invitation code\<close>

text \<open>
  Claim C1, amended. A code is created unused, with \<^verbatim>\<open>used_by\<close> and \<^verbatim>\<open>used_at\<close> null. Every step of
  the server (creation, the validation and the handler of a registration, the public
  check, the admin listing, the account routes) keeps every row coherent, from any state:
  \<^verbatim>\<open>used_by\<close> and \<^verbatim>\<open>used_at\<close> are set exactly when \<^verbatim>\<open>used\<close> is. So every state reachable from
  the freshly created tables is coherent, under every interleaving of the requests' steps.
  In a reachable state a step never removes a row and never touches a used row, and a row
  turns from unused to used only in the handler step of a registration that commits and
  creates the user the row then points to. On a server with a \<^verbatim>\<open>JWT_SECRET\<close> that step
  answers 201; on a server without one \<^verbatim>\<open>jwt.sign\<close> throws after \<^verbatim>\<open>COMMIT\<close>, and the step
  answers with an error although the registration is committed. A used row is the same in
  every later state: the flag goes from false to true at most once.
\<close>

theorem invitation_lifecycle:
  "(admin_create_invitation cfg e d admin_key b = (d', Response 201 (Created msg row)) \<longrightarrow>
      \<not> i_used row \<and> i_used_by row = None \<and> i_used_at row = None)
   \<and> ((\<forall>row \<in> set (codes s). coherent row) \<longrightarrow>
        (\<forall>row \<in> set (codes (step wire cfg s ev)). coherent row))
   \<and> (\<forall>row \<in> set (codes (run wire cfg boot evs)). coherent row)
   \<and> lifecycle_step cfg (run wire cfg boot evs) ev (step wire cfg (run wire cfg boot evs) ev)
   \<and> (\<forall>k < length (codes (run wire cfg boot evs)).
         i_used (codes (run wire cfg boot evs) ! k) \<longrightarrow>
         codes (run wire cfg boot (evs @ later)) ! k = codes (run wire cfg boot evs) ! k)"
proof -
  have reach: "sound (run wire cfg boot evs)" using sound_boot by (rule sound_run)
  have one: "\<not> i_used row \<and> i_used_by row = None \<and> i_used_at row = None"
    if "admin_create_invitation cfg e d admin_key b = (d', Response 201 (Created msg row))"
    using admin_create_cases [OF that] by auto
  have two: "\<forall>row \<in> set (codes (step wire cfg s ev)). coherent row"
    if "\<forall>row \<in> set (codes s). coherent row"
    using that by (rule coherent_step)
  have three: "\<forall>row \<in> set (codes (run wire cfg boot evs)). coherent row"
    using reach by (simp add: sound_def)
  have four: "lifecycle_step cfg (run wire cfg boot evs) ev (step wire cfg (run wire cfg boot evs) ev)"
    using reach by (rule lifecycle_step_sound)
  have five: "\<forall>k < length (codes (run wire cfg boot evs)).
         i_used (codes (run wire cfg boot evs) ! k) \<longrightarrow>
         codes (run wire cfg boot (evs @ later)) ! k = codes (run wire cfg boot evs) ! k"
    using used_rows_frozen [OF reach, of wire cfg later] by (simp add: run_append)
  from one two three four five show ?thesis by blast
qed

text \<open>
  The sample code is created, validated and redeemed on the server with a
  \<^verbatim>\<open>JWT_SECRET\<close>: the row is coherent before and after, and the step that sets the flag is
  the registration that commits, answered 201.
\<close>

theorem invitation_lifecycle_witness:
  "codes (run wire0 cfg0 boot history) = [abc123]
   \<and> \<not> i_used abc123
   \<and> codes (step wire0 cfg0 (run wire0 cfg0 boot history) (Advance 0 (calm 5))) =
       [mark_used 1 5 abc123]
   \<and> coherent abc123 \<and> coherent (mark_used 1 5 abc123)
   \<and> redeemed_by cfg0 (run wire0 cfg0 boot history) (Advance 0 (calm 5))
       (step wire0 cfg0 (run wire0 cfg0 boot history) (Advance 0 (calm 5))) 0
   \<and> requests (step wire0 cfg0 (run wire0 cfg0 boot history) (Advance 0 (calm 5))) =
       [Done (Response 201 (Registered ''Registration successful''
          (issue_token cfg0 5 1 ''a@x.com'') 1 ''a@x.com''))]"
proof -
  let ?s = "run wire0 cfg0 boot history"
  let ?s' = "step wire0 cfg0 ?s (Advance 0 (calm 5))"
  have c: "codes ?s = [abc123]"
    by (simp add: after_history codes_def db_abc_def)
  have c': "codes ?s' = [mark_used 1 5 abc123]"
    by (simp add: after_registration codes_def db_spent_tables)
  have u: "\<not> i_used abc123" "i_used (mark_used 1 5 abc123)"
    by (simp_all add: abc123_def mark_used_def)
  note all = invitation_lifecycle [of cfg0 "calm 0" createTables "Some ''letmein''"
      "\<lparr>new_code = Some ''ABC123'', new_email = Some ''a@x.com'', expiresInDays = None\<rparr>"
      db_abc "''Invitation code created''" abc123 ?s wire0 "Advance 0 (calm 5)" history "[]"]
  from all c c' have coh: "coherent abc123" "coherent (mark_used 1 5 abc123)"
    by simp_all
  from all have "lifecycle_step cfg0 ?s (Advance 0 (calm 5)) ?s'" by simp
  with c c' u have "redeemed_by cfg0 ?s (Advance 0 (calm 5)) ?s' 0"
    by (simp add: lifecycle_step_def)
  with c c' u coh show ?thesis by (simp add: after_registration)
qed

text \<open>
  The claim as stated lets the flag turn only in a successful registration. On the server
  without a \<^verbatim>\<open>JWT_SECRET\<close> the same request commits the user and marks the code, and is
  answered 500 \<^verbatim>\<open>Registration failed\<close>.
\<close>

theorem used_without_a_successful_answer:
  "run wire0 no_secret boot history =
     \<lparr>database = db_abc, requests = [Validated alice abc123],
      sent = [Response 201 (Created ''Invitation code created'' abc123)]\<rparr>
   \<and> invitation_codes db_abc = [abc123] \<and> \<not> i_used abc123
   \<and> step wire0 no_secret (run wire0 no_secret boot history) (Advance 0 (calm 5)) =
     \<lparr>database = db_spent,
      requests = [Done (Response 500 (ErrorMsg ''Registration failed''))],
      sent = [Response 201 (Created ''Invitation code created'' abc123)]\<rparr>
   \<and> register no_secret (calm 5) db_abc alice =
       (db_spent, Response 500 (ErrorMsg ''Registration failed''))
   \<and> invitation_codes db_spent = [mark_used 1 5 abc123] \<and> i_used (mark_used 1 5 abc123)
   \<and> u_email ` set (users db_spent) = {''a@x.com''}"
proof -
  have "register no_secret (calm 5) db_abc alice =
       (db_spent, Response 500 (ErrorMsg ''Registration failed''))"
    using validate_abc alice_unsigned by (simp add: register_def alice_def)
  moreover have "invitation_codes db_abc = [abc123] \<and> \<not> i_used abc123"
    by (simp add: db_abc_def createTables_def abc123_def)
  moreover have "i_used (mark_used 1 5 abc123)" by (simp add: mark_used_def)
  moreover have "invitation_codes db_spent = [mark_used 1 5 abc123]"
    and "u_email ` set (users db_spent) = {''a@x.com''}"
    by (simp_all add: db_spent_tables)
  ultimately show ?thesis
    using after_history_unsigned after_registration_unsigned by blast
qed

section \<open>Registration is all or nothing\<close>

text \<open>
  Claim C2. A registration that fails after the invitation has been validated and before
  \<^verbatim>\<open>COMMIT\<close> has run leaves no user row behind and leaves the invitation table as it was.
  The handler can end before the commit in the ways \<open>stops_early\<close> lists; in each of them
  the answer is not 201 and the \<open>users\<close> and \<open>invitation_codes\<close> tables are those from before
  the attempt; in particular when \<^verbatim>\<open>BEGIN\<close>, the user \<^verbatim>\<open>INSERT\<close>, the invitation \<^verbatim>\<open>UPDATE\<close> or
  \<^verbatim>\<open>COMMIT\<close> fails. In every other run the transaction is committed as a whole, and the
  answer is 201 exactly when the server has a \<^verbatim>\<open>JWT_SECRET\<close>: the one failure left is that
  of \<^verbatim>\<open>jwt.sign\<close>, which comes after the commit. So on a server with a \<^verbatim>\<open>JWT_SECRET\<close> every
  answer of the handler, or of the whole route, other than 201 leaves both tables
  unchanged.
\<close>

theorem registration_is_atomic:
  "(register_handler cfg e d b invitation = (d', res) \<and> stops_early e d b invitation \<longrightarrow>
      status res \<noteq> 201 \<and> users d' = users d \<and> invitation_codes d' = invitation_codes d)
   \<and> (register_handler cfg e d b invitation = (d', res) \<and>
       (q_begin e \<noteq> None \<or> q_insert e \<noteq> None \<or> q_update e \<noteq> None \<or> q_commit e \<noteq> None) \<longrightarrow>
      status res \<noteq> 201 \<and> users d' = users d \<and> invitation_codes d' = invitation_codes d)
   \<and> (register_handler cfg e d b invitation = (d', res) \<and> \<not> stops_early e d b invitation \<longrightarrow>
      (\<exists>ph. d' = committed e d (i_email invitation) ph invitation)
      \<and> (status res = 201 \<longleftrightarrow> JWT_SECRET cfg \<noteq> []))
   \<and> (register_handler cfg e d b invitation = (d', res) \<and> status res \<noteq> 201
       \<and> JWT_SECRET cfg \<noteq> [] \<longrightarrow>
      users d' = users d \<and> invitation_codes d' = invitation_codes d)
   \<and> (register cfg e d b = (d'', res') \<and> status res' \<noteq> 201 \<and> JWT_SECRET cfg \<noteq> [] \<longrightarrow>
      users d'' = users d \<and> invitation_codes d'' = invitation_codes d)"
proof -
  have one: "status res \<noteq> 201 \<and> users d' = users d \<and> invitation_codes d' = invitation_codes d"
    if "register_handler cfg e d b invitation = (d', res)" "stops_early e d b invitation"
    using register_handler_early [OF that] by simp
  have two: "status res \<noteq> 201 \<and> users d' = users d \<and> invitation_codes d' = invitation_codes d"
    if a: "register_handler cfg e d b invitation = (d', res)"
      and f: "q_begin e \<noteq> None \<or> q_insert e \<noteq> None \<or> q_update e \<noteq> None \<or> q_commit e \<noteq> None"
  proof -
    from f have "stops_early e d b invitation" by (auto simp: stops_early_def)
    with a show ?thesis by (rule one)
  qed
  have three: "(\<exists>ph. d' = committed e d (i_email invitation) ph invitation)
      \<and> (status res = 201 \<longleftrightarrow> JWT_SECRET cfg \<noteq> [])"
    if "register_handler cfg e d b invitation = (d', res)" "\<not> stops_early e d b invitation"
    using register_handler_late [OF that] by blast
  have four: "users d' = users d \<and> invitation_codes d' = invitation_codes d"
    if "register_handler cfg e d b invitation = (d', res)" "status res \<noteq> 201"
       "JWT_SECRET cfg \<noteq> []"
    using register_handler_failure [OF that] by simp
  have five: "users d'' = users d \<and> invitation_codes d'' = invitation_codes d"
    if a: "register cfg e d b = (d'', res')" "status res' \<noteq> 201" "JWT_SECRET cfg \<noteq> []"
  proof (cases "validateInvitation e d (invitationCode b)")
    case (Inl r)
    with a show ?thesis by (simp add: register_def)
  next
    case (Inr row)
    with a have "register_handler cfg e d b row = (d'', res')" by (simp add: register_def)
    from register_handler_failure [OF this a(2,3)] show ?thesis by simp
  qed
  from one two three four five show ?thesis by blast
qed

text \<open>
  The \<^verbatim>\<open>UPDATE\<close> fails after the user was inserted: the row is gone again. On the server
  without a \<^verbatim>\<open>JWT_SECRET\<close> the same request, with nothing failing before the commit, is
  answered 500 with the registration committed.
\<close>

theorem registration_is_atomic_witness:
  "register_handler cfg0 ((calm 5)\<lparr>q_update := Some (JsError None)\<rparr>) db_abc alice abc123 =
     (bump db_abc, Response 500 (ErrorMsg ''Registration failed''))
   \<and> stops_early ((calm 5)\<lparr>q_update := Some (JsError None)\<rparr>) db_abc alice abc123
   \<and> users (bump db_abc) = users db_abc
   \<and> invitation_codes (bump db_abc) = invitation_codes db_abc
   \<and> users (bump db_abc) = [] \<and> invitation_codes (bump db_abc) = [abc123]
   \<and> register_handler no_secret (calm 5) db_abc alice abc123 =
       (db_spent, Response 500 (ErrorMsg ''Registration failed''))
   \<and> \<not> stops_early (calm 5) db_abc alice abc123
   \<and> db_spent = committed (calm 5) db_abc (i_email abc123) ''$2b$secret1'' abc123"
proof -
  let ?e = "(calm 5)\<lparr>q_update := Some (JsError None)\<rparr>"
  have run: "register_handler cfg0 ?e db_abc alice abc123 =
     (bump db_abc, Response 500 (ErrorMsg ''Registration failed''))"
    by (rule handler_update_fails)
  have early: "stops_early ?e db_abc alice abc123" by (simp add: stops_early_def)
  have late: "\<not> stops_early (calm 5) db_abc alice abc123"
    by (simp add: stops_early_def calm_def alice_def abc123_def db_abc_def createTables_def)
  from registration_is_atomic [of cfg0 ?e db_abc alice abc123 "bump db_abc"
      "Response 500 (ErrorMsg ''Registration failed'')"] run early
  have "users (bump db_abc) = users db_abc \<and> invitation_codes (bump db_abc) = invitation_codes db_abc"
    by blast
  moreover have "users db_abc = [] \<and> invitation_codes db_abc = [abc123]"
    by (simp add: db_abc_def createTables_def)
  moreover have "db_spent = committed (calm 5) db_abc (i_email abc123) ''$2b$secret1'' abc123"
    by (simp add: db_spent_def abc123_def)
  ultimately show ?thesis using run early late alice_unsigned by simp
qed

section \<open>The order of the redemption checks\<close>

text \<open>
  Claim C3, amended. For every request that carries a non-empty invitation code and an
  email, and whose lookup query succeeds, the register route reports the first error of
  the spec's precedence order (code not found, used, expired, bound to another email),
  with the matching 400 response and the database untouched; when none applies the
  middleware passes the found row on, the email check passes, and the response is none
  of the four. In particular a used and expired code is reported as used, and an expired
  code bound to another email as expired. (A missing or empty code is answered
  \<^verbatim>\<open>Invitation code required\<close> before any lookup.)
\<close>

theorem redemption_precedence:
  assumes code: "invitationCode b = Some c" "c \<noteq> []"
    and mail: "email b = Some em"
    and up: "q_select e = None"
  shows "(case validateForRedemption d (clock e) c em of
            Some r \<Rightarrow> register cfg e d b = (d, refusal r)
          | None \<Rightarrow>
              (\<exists>row. lookup c d = Some row \<and> i_email row = em
                  \<and> validateInvitation e d (invitationCode b) = Inr row)
              \<and> (\<forall>r. snd (register cfg e d b) \<noteq> refusal r))
         \<and> (\<forall>row t. lookup c d = Some row \<and> i_used row \<and> i_expires_at row = Some t \<and> t < clock e
               \<longrightarrow> snd (register cfg e d b) = refusal ALREADY_USED)
         \<and> (\<forall>row t. lookup c d = Some row \<and> \<not> i_used row \<and> i_expires_at row = Some t
                 \<and> t < clock e \<and> i_email row \<noteq> em
               \<longrightarrow> snd (register cfg e d b) = refusal EXPIRED)"
proof -
  note v = validateInvitation_present [OF code(2) up, of d]
  show ?thesis
  proof (cases "select_invitation c d")
    case Nil
    then have "validateInvitation e d (invitationCode b) = Inl (refusal INVALID)"
      using v code by simp
    then have "register cfg e d b = (d, refusal INVALID)" by (rule register_refused)
    with Nil show ?thesis
      by (simp add: validateForRedemption_def lookup_select)
  next
    case (Cons row rest)
    then have look: "lookup c d = Some row" by (simp add: lookup_select)
    consider (used) "i_used row"
      | (late) "\<not> i_used row" "expired (clock e) row"
      | (other) "\<not> i_used row" "\<not> expired (clock e) row" "i_email row \<noteq> em"
      | (fine) "\<not> i_used row" "\<not> expired (clock e) row" "i_email row = em"
      by blast
    then show ?thesis
    proof cases
      case used
      then have "validateInvitation e d (invitationCode b) = Inl (refusal ALREADY_USED)"
        using v code Cons by simp
      then have "register cfg e d b = (d, refusal ALREADY_USED)" by (rule register_refused)
      with used look show ?thesis by (simp add: validateForRedemption_def)
    next
      case late
      then have "validateInvitation e d (invitationCode b) = Inl (refusal EXPIRED)"
        using v code Cons by simp
      then have "register cfg e d b = (d, refusal EXPIRED)" by (rule register_refused)
      with late look show ?thesis
        by (auto simp: validateForRedemption_def expired_def split: option.splits)
    next
      case other
      then have "validateInvitation e d (invitationCode b) = Inr row"
        using v code Cons by simp
      then have "register cfg e d b = register_handler cfg e d b row"
        by (rule register_after_validation)
      then have "register cfg e d b = (d, refusal EMAIL_MISMATCH)"
        using handler_mismatch [of b em row cfg e d] mail other by simp
      with other look show ?thesis
        by (auto simp: validateForRedemption_def expired_def split: option.splits)
    next
      case fine
      then have val: "validateInvitation e d (invitationCode b) = Inr row"
        using v code Cons by simp
      then have "register cfg e d b = register_handler cfg e d b row"
        by (rule register_after_validation)
      then have "\<forall>r. snd (register cfg e d b) \<noteq> refusal r"
        using handler_never_refuses_twice [of b row cfg e d] mail fine by simp
      with fine look val show ?thesis
        by (auto simp: validateForRedemption_def expired_def split: option.splits)
    qed
  qed
qed

text \<open>
  The spent code, presented after its expiry with another email: all three errors apply,
  and the first one is reported.
\<close>

theorem redemption_precedence_witness:
  "validateForRedemption db_spent 2592000001 ''ABC123'' ''b@y.com'' = Some ALREADY_USED
   \<and> register cfg0 (calm 2592000001) db_spent (alice\<lparr>email := Some ''b@y.com''\<rparr>) =
       (db_spent, Response 400 (ErrorMsg ''Invitation code already used''))"
proof -
  let ?b = "alice\<lparr>email := Some ''b@y.com''\<rparr>"
  have h1: "invitationCode ?b = Some ''ABC123''" by (simp add: alice_def)
  have h2: "''ABC123'' \<noteq> []" by simp
  have h3: "email ?b = Some ''b@y.com''" by simp
  have h4: "q_select (calm 2592000001) = None" by (simp add: calm_def)
  have now: "clock (calm 2592000001) = 2592000001" by (simp add: calm_def)
  have v: "validateForRedemption db_spent 2592000001 ''ABC123'' ''b@y.com'' = Some ALREADY_USED"
    by (simp add: validateForRedemption_def lookup_select select_spent mark_used_def)
  from redemption_precedence [OF h1 h2 h3 h4, of db_spent cfg0] v now
  have "register cfg0 (calm 2592000001) db_spent ?b = (db_spent, refusal ALREADY_USED)"
    by simp
  with v show ?thesis by (simp add: refusal_def)
qed

text \<open>
  The claim as stated, for every pair: the empty code matches no row, so the spec's check
  says INVALID, but the middleware answers \<^verbatim>\<open>Invitation code required\<close>.
\<close>

theorem empty_code_is_not_reported_invalid:
  "validateForRedemption db_abc 5 [] ''a@x.com'' = Some INVALID
   \<and> register cfg0 (calm 5) db_abc (alice\<lparr>invitationCode := Some []\<rparr>) =
       (db_abc, Response 400 (ErrorMsg ''Invitation code required''))
   \<and> Response 400 (ErrorMsg ''Invitation code required'') \<noteq> refusal INVALID"
  by (simp add: validateForRedemption_def lookup_def db_abc_def createTables_def abc123_def
      register_def validateInvitation_def falsy_def refusal_def)

section \<open>Simultaneous registrations with one code\<close>

text \<open>
  Claim C4, amended. Take any number of registration attempts that carry the same
  invitation code, and any interleaving of their steps (each attempt first looks the code
  up, later runs its handler with the transaction). At most one attempt is answered 201,
  and the \<open>users\<close> table grows by at most one row, and by no fewer rows than attempts
  succeeded: never are two users created against one code. On a server with a
  \<^verbatim>\<open>JWT_SECRET\<close> the table grows by exactly as many rows as attempts succeeded. When
  moreover there is at least one attempt, the code is non-empty, unused and not expired
  at any step, its bound email is not registered yet, every attempt supplies that email,
  no database or hashing call fails, and every attempt has finished, then exactly one
  attempt has succeeded and each of the others was answered 400,
  \<^verbatim>\<open>Invitation code already used\<close> or \<^verbatim>\<open>Email already registered\<close>.
\<close>

theorem one_winner_per_code:
  assumes same: "\<forall>b \<in> set bs. invitationCode b = Some c"
  shows "length (filter succeeded (requests (race cfg (attempts d bs) schedule))) \<le> 1
       \<and> length (users (database (race cfg (attempts d bs) schedule))) \<le> length (users d) + 1
       \<and> length (users d) + length (filter succeeded (requests (race cfg (attempts d bs) schedule)))
           \<le> length (users (database (race cfg (attempts d bs) schedule)))
       \<and> (JWT_SECRET cfg \<noteq> [] \<longrightarrow>
           length (users (database (race cfg (attempts d bs) schedule))) =
             length (users d) + length (filter succeeded (requests (race cfg (attempts d bs) schedule))))
       \<and> (JWT_SECRET cfg \<noteq> [] \<and> bs \<noteq> [] \<and> c \<noteq> [] \<and> lookup c d = Some r0 \<and> \<not> i_used r0
            \<and> (\<forall>u \<in> set (users d). u_email u \<noteq> i_email r0)
            \<and> (\<forall>b \<in> set bs. email b = Some (i_email r0))
            \<and> (\<forall>(i, e) \<in> set schedule. faultless e \<and> \<not> expired (clock e) r0
                  \<and> (\<forall>b \<in> set bs. \<exists>ph. bcrypt_hash e (password b) 12 = Inr ph))
            \<and> (\<forall>q \<in> set (requests (race cfg (attempts d bs) schedule)). finished q)
          \<longrightarrow> length (filter succeeded (requests (race cfg (attempts d bs) schedule))) = 1
            \<and> (\<forall>q \<in> set (requests (race cfg (attempts d bs) schedule)). succeeded q \<or> lost q)
            \<and> length (requests (race cfg (attempts d bs) schedule)) = length bs)"
proof -
  let ?end = "race cfg (attempts d bs) schedule"
  have len: "length (requests ?end) = length bs"
    by (simp add: race_length attempts_def)
  from contest_race [OF same, of cfg d schedule]
  have upper: "length (users (database ?end)) \<le> length (users d) + 1"
    and lower: "length (users d) + length (filter succeeded (requests ?end))
           \<le> length (users (database ?end))"
    and users: "JWT_SECRET cfg \<noteq> [] \<longrightarrow> length (users (database ?end)) =
           length (users d) + length (filter succeeded (requests ?end))"
    by (simp_all add: contest_def)
  from upper lower have most: "length (filter succeeded (requests ?end)) \<le> 1" by arith
  have exact: "length (filter succeeded (requests ?end)) = 1
       \<and> (\<forall>q \<in> set (requests ?end). succeeded q \<or> lost q)"
    if secret: "JWT_SECRET cfg \<noteq> []"
      and h: "bs \<noteq> []" "c \<noteq> []" "lookup c d = Some r0" "\<not> i_used r0"
       "\<forall>u \<in> set (users d). u_email u \<noteq> i_email r0"
       "\<forall>b \<in> set bs. email b = Some (i_email r0)"
       "\<forall>(i, e) \<in> set schedule. faultless e \<and> \<not> expired (clock e) r0
                  \<and> (\<forall>b \<in> set bs. \<exists>ph. bcrypt_hash e (password b) 12 = Inr ph)"
       "\<forall>q \<in> set (requests ?end). finished q"
  proof -
    from same h(6)
    have bodies: "\<forall>b \<in> set bs. invitationCode b = Some c \<and> email b = Some (i_email r0)"
      by simp
    have "orderly c bs r0 ?end"
      by (rule orderly_race [OF h(3,4,5,2) bodies h(7) secret])
    moreover from len h(1) have "requests ?end \<noteq> []" by auto
    ultimately show ?thesis using h(8) by (rule orderly_end)
  qed
  from most upper lower users exact len show ?thesis by blast
qed

text \<open>
  Two attempts with the sample code: both validate, the second runs its transaction
  first and wins, the first then hits the unique email.
\<close>

theorem one_winner_per_code_witness:
  "requests (race cfg0 (attempts db_abc [alice, alice])
       [(0, calm 5), (1, calm 5), (1, calm 5), (0, calm 6)]) =
     [Done (Response 400 (ErrorMsg ''Email already registered'')),
      Done (Response 201 (Registered ''Registration successful''
        (issue_token cfg0 5 1 ''a@x.com'') 1 ''a@x.com''))]
   \<and> length (filter succeeded (requests (race cfg0 (attempts db_abc [alice, alice])
       [(0, calm 5), (1, calm 5), (1, calm 5), (0, calm 6)]))) = 1
   \<and> length (users (database (race cfg0 (attempts db_abc [alice, alice])
       [(0, calm 5), (1, calm 5), (1, calm 5), (0, calm 6)]))) = 1"
proof -
  let ?sched = "[(0, calm 5), (1, calm 5), (1, calm 5), (0::nat, calm 6)]"
  let ?end = "race cfg0 (attempts db_abc [alice, alice]) ?sched"
  have same: "\<forall>b \<in> set [alice, alice]. invitationCode b = Some ''ABC123''"
    by (simp add: alice_def)
  have r: "requests ?end =
     [Done (Response 400 (ErrorMsg ''Email already registered'')),
      Done (Response 201 (Registered ''Registration successful''
        (issue_token cfg0 5 1 ''a@x.com'') 1 ''a@x.com''))]"
    unfolding two_attempts by simp
  have hyp: "JWT_SECRET cfg0 \<noteq> [] \<and> [alice, alice] \<noteq> [] \<and> ''ABC123'' \<noteq> [] \<and> lookup ''ABC123'' db_abc = Some abc123
       \<and> \<not> i_used abc123
       \<and> (\<forall>u \<in> set (users db_abc). u_email u \<noteq> i_email abc123)
       \<and> (\<forall>b \<in> set [alice, alice]. email b = Some (i_email abc123))
       \<and> (\<forall>(i, e) \<in> set ?sched. faultless e \<and> \<not> expired (clock e) abc123
                  \<and> (\<forall>b \<in> set [alice, alice]. \<exists>ph. bcrypt_hash e (password b) 12 = Inr ph))
       \<and> (\<forall>q \<in> set (requests ?end). finished q)"
    unfolding r
    by (simp add: lookup_abc calm_faultless finished_def cfg0_secret)
       (simp add: abc123_def db_abc_def createTables_def alice_def expired_def calm_def)
  from one_winner_per_code [OF same, of cfg0 db_abc ?sched abc123] hyp
  have "length (filter succeeded (requests ?end)) = 1" by blast
  moreover from one_winner_per_code [OF same, of cfg0 db_abc ?sched abc123] this
  have "length (users (database ?end)) = 1"
    by (simp add: db_abc_def createTables_def cfg0_secret)
  ultimately show ?thesis using r by simp
qed

text \<open>
  The claim as stated promises a winner for every unused code. After the registration of
  \<^verbatim>\<open>a@x.com\<close> the administrator issues a second code for the same address. It is unused,
  but its email is registered: both attempts validate, and both are answered
  \<^verbatim>\<open>Email already registered\<close>. And on the server without a \<^verbatim>\<open>JWT_SECRET\<close> the two attempts
  with the fresh sample code end with 400 and 500: the attempt that commits creates the
  user, and is answered \<^verbatim>\<open>Registration failed\<close>.
\<close>

theorem unused_code_with_no_winner:
  "database (run wire0 cfg0 boot
       (history @
        [Advance 0 (calm 5),
         AdminCreate (calm 6) (Some ''letmein'')
           \<lparr>new_code = Some ''DEF456'', new_email = Some ''a@x.com'',
            expiresInDays = None\<rparr>])) = db_again
   \<and> lookup ''DEF456'' db_again = Some def456 \<and> \<not> i_used def456
   \<and> invitationCode alice_again = Some ''DEF456''
   \<and> requests (race cfg0 (attempts db_again [alice_again, alice_again])
        [(0, calm 7), (1, calm 7), (0, calm 7), (1, calm 7)]) =
       [Done (Response 400 (ErrorMsg ''Email already registered'')),
        Done (Response 400 (ErrorMsg ''Email already registered''))]
   \<and> length (filter succeeded (requests (race cfg0 (attempts db_again [alice_again, alice_again])
        [(0, calm 7), (1, calm 7), (0, calm 7), (1, calm 7)]))) = 0
   \<and> database (run wire0 no_secret boot history) = db_abc
   \<and> lookup ''ABC123'' db_abc = Some abc123 \<and> \<not> i_used abc123 \<and> users db_abc = []
   \<and> invitationCode alice = Some ''ABC123''
   \<and> requests (race no_secret (attempts db_abc [alice, alice])
        [(0, calm 5), (1, calm 5), (1, calm 5), (0, calm 6)]) =
       [Done (Response 400 (ErrorMsg ''Email already registered'')),
        Done (Response 500 (ErrorMsg ''Registration failed''))]
   \<and> length (filter succeeded (requests (race no_secret (attempts db_abc [alice, alice])
        [(0, calm 5), (1, calm 5), (1, calm 5), (0, calm 6)]))) = 0
   \<and> length (users (database (race no_secret (attempts db_abc [alice, alice])
        [(0, calm 5), (1, calm 5), (1, calm 5), (0, calm 6)]))) = 1"
proof -
  have unsigned: "database (run wire0 no_secret boot history) = db_abc
     \<and> lookup ''ABC123'' db_abc = Some abc123 \<and> \<not> i_used abc123 \<and> users db_abc = []
     \<and> invitationCode alice = Some ''ABC123''"
    by (simp add: after_history_unsigned lookup_abc)
       (simp add: abc123_def alice_def db_abc_def createTables_def)
  have b: "invitationCode alice_again = Some ''DEF456''" by (simp add: alice_again_def)
  have l: "lookup ''DEF456'' db_again = Some def456"
    by (simp add: lookup_def db_again_tables mark_used_def abc123_def def456_def)
  have u: "\<not> i_used def456" by (simp add: def456_def)
  have r: "requests (race cfg0 (attempts db_again [alice_again, alice_again])
        [(0, calm 7), (1, calm 7), (0, calm 7), (1, calm 7)]) =
       [Done (Response 400 (ErrorMsg ''Email already registered'')),
        Done (Response 400 (ErrorMsg ''Email already registered''))]"
    by (simp add: race_def attempts_def advance_def b validate_def456 alice_again_loses
        validate_def456_bumped handler_bumped)
  have reach: "database (run wire0 cfg0 boot
       (history @
        [Advance 0 (calm 5),
         AdminCreate (calm 6) (Some ''letmein'')
           \<lparr>new_code = Some ''DEF456'', new_email = Some ''a@x.com'',
            expiresInDays = None\<rparr>])) = db_again"
  proof -
    have a: "admin_create_invitation cfg0 (calm 6) db_spent (Some ''letmein'')
        \<lparr>new_code = Some ''DEF456'', new_email = Some ''a@x.com'', expiresInDays = None\<rparr> =
      (db_again, Response 201 (Created ''Invitation code created'' def456))"
      by (simp add: admin_create_invitation_def valid_date_def insert_invitation_def cfg0_def falsy_def calm_def
          db_again_def def456_def db_spent_tables Let_def mark_used_def abc123_def)
         (simp add: db_spent_def committed_def db_abc_def createTables_def)
    let ?create = "AdminCreate (calm 6) (Some ''letmein'')
           \<lparr>new_code = Some ''DEF456'', new_email = Some ''a@x.com'',
            expiresInDays = None\<rparr>"
    have "database (run wire0 cfg0 boot (history @ [Advance 0 (calm 5)])) = db_spent"
      unfolding run_snoc after_registration by simp
    then have "database (step wire0 cfg0
        (run wire0 cfg0 boot (history @ [Advance 0 (calm 5)])) ?create) = db_again"
      by (simp add: step_def serve_def a)
    then have "database (run wire0 cfg0 boot ((history @ [Advance 0 (calm 5)]) @ [?create])) =
        db_again"
      unfolding run_snoc .
    then show ?thesis by simp
  qed
  show ?thesis unfolding r two_attempts_unsigned using b l u reach unsigned
    by (simp add: succeeded_def bump_def db_spent_tables)
qed

section \<open>Issuing and verifying a session token\<close>

text \<open>
  Claim C5. A token issued for a user id and an email verifies to a payload with the same
  user id and email at every time before the seven days are over, and is rejected as
  expired from then on. Through \<^verbatim>\<open>authenticateToken\<close>, the \<^verbatim>\<open>Bearer\<close> header carrying the
  token's text yields that payload as \<^verbatim>\<open>req.user\<close> before expiry and 403 afterwards.
\<close>

theorem token_round_trip:
  "(now' < now + seven_days \<longrightarrow>
      (\<exists>p. verify_token cfg now' (issue_token cfg now uid em) = Inr p
           \<and> userId p = uid \<and> payload_email p = em))
   \<and> (now + seven_days \<le> now' \<longrightarrow>
      verify_token cfg now' (issue_token cfg now uid em) = Inl TokenExpiredError)
   \<and> (wire s = Some (issue_token cfg now uid em) \<and> s \<noteq> [] \<and> CHR '' '' \<notin> set s \<longrightarrow>
        (now' < now + seven_days \<longrightarrow>
           (\<exists>p. authenticateToken wire cfg now' (Some (''Bearer '' @ s)) = Inr p
                \<and> userId p = uid \<and> payload_email p = em))
      \<and> (now + seven_days \<le> now' \<longrightarrow>
           authenticateToken wire cfg now' (Some (''Bearer '' @ s)) =
             Inl (Response 403 (ErrorMsg ''Invalid token''))))"
proof -
  have valid: "verify_token cfg now' (issue_token cfg now uid em) =
      Inr \<lparr>userId = uid, payload_email = em, iat = now, exp = now + seven_days\<rparr>"
    if "now' < now + seven_days"
    using that by (simp add: verify_token_def issue_token_def jwt_verify_def jwt_sign_def)
  have late: "verify_token cfg now' (issue_token cfg now uid em) = Inl TokenExpiredError"
    if "now + seven_days \<le> now'"
    using that by (simp add: verify_token_def issue_token_def jwt_verify_def jwt_sign_def)
  have mw: "authenticateToken wire cfg now' (Some (''Bearer '' @ s)) =
      (case verify_token cfg now' (issue_token cfg now uid em) of
         Inl err \<Rightarrow> Inl (Response 403 (ErrorMsg ''Invalid token''))
       | Inr user \<Rightarrow> Inr user)"
    if "wire s = Some (issue_token cfg now uid em)" "s \<noteq> []" "CHR '' '' \<notin> set s"
    using that bearer_of_header [of s]
    by (simp add: authenticateToken_def falsy_def del: append.simps)
  from valid late mw show ?thesis by (auto simp del: append.simps)
qed

text \<open>One millisecond before the seven days are over, and at their end.\<close>

theorem token_round_trip_witness:
  "verify_token cfg0 (5 + seven_days - 1) (issue_token cfg0 5 1 ''a@x.com'') =
      Inr \<lparr>userId = 1, payload_email = ''a@x.com'', iat = 5, exp = 5 + seven_days\<rparr>
   \<and> verify_token cfg0 (5 + seven_days) (issue_token cfg0 5 1 ''a@x.com'') = Inl TokenExpiredError"
proof -
  have a: "5 + seven_days - 1 < 5 + seven_days" and b: "5 + seven_days \<le> 5 + seven_days"
    by simp_all
  from token_round_trip [of "5 + seven_days - 1" 5 cfg0 1 "''a@x.com''"] a
  obtain p where p: "verify_token cfg0 (5 + seven_days - 1) (issue_token cfg0 5 1 ''a@x.com'') = Inr p"
    by blast
  then have "p = \<lparr>userId = 1, payload_email = ''a@x.com'', iat = 5, exp = 5 + seven_days\<rparr>"
    by (simp add: verify_token_def issue_token_def jwt_verify_def jwt_sign_def split: if_splits)
  moreover from token_round_trip [of "5 + seven_days" 5 cfg0 1 "''a@x.com''"] b
  have "verify_token cfg0 (5 + seven_days) (issue_token cfg0 5 1 ''a@x.com'') = Inl TokenExpiredError"
    by blast
  ultimately show ?thesis using p by simp
qed

section \<open>The instant of expiry\<close>

text \<open>
  Claim C6, amended. Both \<^verbatim>\<open>validateInvitation\<close> and \<^verbatim>\<open>/api/verify-invitation\<close> test
  \<^verbatim>\<open>new Date() > new Date(expires_at)\<close>: an unused invitation is accepted by both as long
  as the current time is at most \<open>expires_at\<close>, the instant \<open>expires_at\<close> itself included,
  and refused as expired by both (400 and 410) from the next instant on.
\<close>

theorem expiry_boundary_is_exclusive:
  assumes "select_invitation c d = row # rest" and "\<not> i_used row"
    and "i_expires_at row = Some t" and "c \<noteq> []" and "q_select e = None"
  shows "(clock e \<le> t \<longrightarrow>
            validateInvitation e d (Some c) = Inr row
            \<and> status (verify_invitation e d (Some c)) = 200)
       \<and> (t < clock e \<longrightarrow>
            validateInvitation e d (Some c) =
              Inl (Response 400 (ErrorMsg ''Invitation code has expired''))
            \<and> verify_invitation e d (Some c) =
              Response 410 (NotValid ''Invitation code has expired''))"
  using assms
  by (simp add: validateInvitation_def verify_invitation_def falsy_def expired_def)

text \<open>The sample code at the very millisecond it expires, and one millisecond later.\<close>

theorem expiry_boundary_is_exclusive_witness:
  "i_expires_at abc123 = Some (clock (calm 2592000000))
   \<and> validateInvitation (calm 2592000000) db_abc (Some ''ABC123'') = Inr abc123
   \<and> status (verify_invitation (calm 2592000000) db_abc (Some ''ABC123'')) = 200
   \<and> validateInvitation (calm 2592000001) db_abc (Some ''ABC123'') =
        Inl (Response 400 (ErrorMsg ''Invitation code has expired''))
   \<and> verify_invitation (calm 2592000001) db_abc (Some ''ABC123'') =
        Response 410 (NotValid ''Invitation code has expired'')"
proof -
  have h2: "\<not> i_used abc123" and h3: "i_expires_at abc123 = Some 2592000000"
    by (simp_all add: abc123_def)
  have h4: "''ABC123'' \<noteq> []" by simp
  have q: "q_select (calm 2592000000) = None" "q_select (calm 2592000001) = None"
    by (simp_all add: calm_def)
  have c: "clock (calm 2592000000) = 2592000000" "clock (calm 2592000001) = 2592000001"
    by (simp_all add: calm_def)
  from expiry_boundary_is_exclusive [OF select_abc h2 h3 h4 q(1)]
       expiry_boundary_is_exclusive [OF select_abc h2 h3 h4 q(2)] c h3
  show ?thesis by simp
qed

text \<open>The claim as stated asks for a refusal at that millisecond; both routes accept.\<close>

theorem expiry_at_now_is_accepted:
  "i_expires_at abc123 = Some (clock (calm 2592000000))
   \<and> validateInvitation (calm 2592000000) db_abc (Some ''ABC123'') = Inr abc123
   \<and> verify_invitation (calm 2592000000) db_abc (Some ''ABC123'') =
        Response 200 (Valid ''Invitation code is valid'' (Some ''x.com''))"
  by (simp add: validateInvitation_def verify_invitation_def falsy_def expired_def calm_def
      select_abc at_index_def) (simp add: abc123_def)

section \<open>An email that is already registered\<close>



section \<open>Requests without a good token\<close>

text \<open>
  Claim C8, amended. \<^verbatim>\<open>authenticateToken\<close> answers 401 \<^verbatim>\<open>Access token required\<close> when the
  \<^verbatim>\<open>Authorization\<close> header is absent or carries no token after its first space, and 403
  \<^verbatim>\<open>Invalid token\<close> when the token is malformed, signed with another key or expired. In
  every one of these cases the protected handler is not reached: the route sends the
  middleware's response and leaves the database alone.
\<close>

theorem token_rejections:
  "(authHeader = None \<or> falsy (bearer authHeader) \<longrightarrow>
      authenticateToken wire cfg now authHeader =
        Inl (Response 401 (ErrorMsg ''Access token required'')))
   \<and> (\<not> falsy (bearer authHeader) \<and> wire (the (bearer authHeader)) = None \<longrightarrow>
      authenticateToken wire cfg now authHeader = Inl (Response 403 (ErrorMsg ''Invalid token'')))
   \<and> (\<forall>t. \<not> falsy (bearer authHeader) \<and> wire (the (bearer authHeader)) = Some t
          \<and> (signed_with t \<noteq> JWT_SECRET cfg \<or> exp (payload t) \<le> now) \<longrightarrow>
      authenticateToken wire cfg now authHeader = Inl (Response 403 (ErrorMsg ''Invalid token'')))
   \<and> (\<forall>res. authenticateToken wire cfg (clock e) authHeader = Inl res \<longrightarrow>
          get_accounts wire cfg e d authHeader = res
        \<and> exchange_public_token wire cfg e d' authHeader public_token = (d', res))"
  by (auto simp: authenticateToken_cases get_accounts_def exchange_public_token_def
      bearer_def falsy_def)

text \<open>No header, a header without a token, a text that is no token, an expired token.\<close>

theorem token_rejections_witness:
  "authenticateToken wire0 cfg0 9 None = Inl (Response 401 (ErrorMsg ''Access token required''))
   \<and> authenticateToken wire0 cfg0 9 (Some ''Bearer'') =
        Inl (Response 401 (ErrorMsg ''Access token required''))
   \<and> authenticateToken wire0 cfg0 9 (Some ''Bearer garbage'') =
        Inl (Response 403 (ErrorMsg ''Invalid token''))
   \<and> authenticateToken wire0 cfg0 (5 + seven_days) (Some ''Bearer tok'') =
        Inl (Response 403 (ErrorMsg ''Invalid token''))
   \<and> get_accounts wire0 cfg0 (calm (5 + seven_days)) db_linked (Some ''Bearer tok'') =
        Response 403 (ErrorMsg ''Invalid token'')"
proof -
  have b0: "bearer None = None" "bearer (Some ''Bearer'') = None"
    by (simp_all add: bearer_def falsy_def at_index_def)
  have b1: "bearer (Some ''Bearer garbage'') = Some ''garbage''"
    using bearer_of_header [of "''garbage''"] by simp
  have w: "wire0 ''garbage'' = None" "wire0 ''tok'' = Some (issue_token cfg0 5 1 ''a@x.com'')"
    by (simp_all add: wire0_def)
  have old: "exp (payload (issue_token cfg0 5 1 ''a@x.com'')) \<le> 5 + seven_days"
    by (simp add: issue_token_def jwt_sign_def)
  have c: "clock (calm (5 + seven_days)) = 5 + seven_days" by (simp add: calm_def)
  have one: "authenticateToken wire0 cfg0 9 None = Inl (Response 401 (ErrorMsg ''Access token required''))"
    using token_rejections [of None wire0 cfg0 9 "calm 9" db_linked db_linked None] by simp
  have two: "authenticateToken wire0 cfg0 9 (Some ''Bearer'') =
        Inl (Response 401 (ErrorMsg ''Access token required''))"
    using token_rejections [of "Some ''Bearer''" wire0 cfg0 9 "calm 9" db_linked db_linked None] b0 by (simp add: falsy_def)
  have three: "authenticateToken wire0 cfg0 9 (Some ''Bearer garbage'') =
        Inl (Response 403 (ErrorMsg ''Invalid token''))"
    using token_rejections [of "Some ''Bearer garbage''" wire0 cfg0 9 "calm 9" db_linked db_linked None] b1 w by (simp add: falsy_def)
  have four: "authenticateToken wire0 cfg0 (5 + seven_days) (Some ''Bearer tok'') =
        Inl (Response 403 (ErrorMsg ''Invalid token''))"
    using token_rejections [of "Some ''Bearer tok''" wire0 cfg0 "5 + seven_days" "calm 9" db_linked db_linked None] bearer_tok w old
    by (simp add: falsy_def)
  have five: "get_accounts wire0 cfg0 (calm (5 + seven_days)) db_linked (Some ''Bearer tok'') =
        Response 403 (ErrorMsg ''Invalid token'')"
    using token_rejections [of "Some ''Bearer tok''" wire0 cfg0 "5 + seven_days"
        "calm (5 + seven_days)" db_linked db_linked None] four c
    by simp
  from one two three four five show ?thesis by simp
qed

text \<open>The claim as stated asks for 401 in all three cases; two of them get 403.\<close>

theorem bad_tokens_get_403:
  "authenticateToken wire0 cfg0 9 (Some ''Bearer garbage'') =
        Inl (Response 403 (ErrorMsg ''Invalid token''))
   \<and> authenticateToken wire0 cfg0 (5 + seven_days) (Some ''Bearer tok'') =
        Inl (Response 403 (ErrorMsg ''Invalid token''))
   \<and> status (Response 403 (ErrorMsg ''Invalid token'')) \<noteq> 401"
proof -
  have b1: "bearer (Some ''Bearer garbage'') = Some ''garbage''"
    using bearer_of_header [of "''garbage''"] by simp
  show ?thesis
    by (simp add: authenticateToken_cases b1 bearer_tok falsy_def wire0_def issue_token_def
        jwt_sign_def)
qed

section \<open>The public check of an invitation code\<close>

text \<open>
  Claim C9, amended. For every non-empty invitation code whose lookup query succeeds,
  \<^verbatim>\<open>POST /api/verify-invitation\<close> answers 404 with \<^verbatim>\<open>valid: false\<close> when no row has the
  code; otherwise, for the row found, 409 when it is used, else 410 when its expiry lies
  in the past, else 200 with \<^verbatim>\<open>valid: true\<close> and \<^verbatim>\<open>emailDomain\<close>, the second piece of the
  bound email split at \<^verbatim>\<open>@\<close>: the domain of an address with one \<^verbatim>\<open>@\<close>, and absent when
  the address has none. (A missing or empty code is answered 400.)
\<close>

theorem verify_invitation_statuses:
  assumes "c \<noteq> []" and "q_select e = None"
  shows "((\<forall>row \<in> set (invitation_codes d). i_code row \<noteq> c) \<longrightarrow>
            verify_invitation e d (Some c) = Response 404 (NotValid ''Invalid invitation code''))
       \<and> (\<forall>row rest. select_invitation c d = row # rest \<longrightarrow>
            (i_used row \<longrightarrow>
               verify_invitation e d (Some c) =
                 Response 409 (NotValid ''Invitation code already used''))
          \<and> (\<not> i_used row \<and> (\<exists>t. i_expires_at row = Some t \<and> t < clock e) \<longrightarrow>
               verify_invitation e d (Some c) =
                 Response 410 (NotValid ''Invitation code has expired''))
          \<and> (\<not> i_used row \<and> \<not> (\<exists>t. i_expires_at row = Some t \<and> t < clock e) \<longrightarrow>
               (\<exists>emailDomain.
                  verify_invitation e d (Some c) =
                    Response 200 (Valid ''Invitation code is valid'' emailDomain)
                  \<and> (\<forall>local domain.
                        i_email row = local @ ''@'' @ domain \<and> CHR ''@'' \<notin> set local
                          \<and> CHR ''@'' \<notin> set domain \<longrightarrow> emailDomain = Some domain)
                  \<and> (CHR ''@'' \<notin> set (i_email row) \<longrightarrow> emailDomain = None))))"
proof -
  have none: "verify_invitation e d (Some c) = Response 404 (NotValid ''Invalid invitation code'')"
    if "\<forall>row \<in> set (invitation_codes d). i_code row \<noteq> c"
  proof -
    from that have "select_invitation c d = []"
      by (simp add: select_invitation_def filter_empty_conv)
    with assms show ?thesis by (simp add: verify_invitation_def falsy_def)
  qed
  have some: "(i_used row \<longrightarrow>
               verify_invitation e d (Some c) =
                 Response 409 (NotValid ''Invitation code already used''))
          \<and> (\<not> i_used row \<and> (\<exists>t. i_expires_at row = Some t \<and> t < clock e) \<longrightarrow>
               verify_invitation e d (Some c) =
                 Response 410 (NotValid ''Invitation code has expired''))
          \<and> (\<not> i_used row \<and> \<not> (\<exists>t. i_expires_at row = Some t \<and> t < clock e) \<longrightarrow>
               (\<exists>emailDomain.
                  verify_invitation e d (Some c) =
                    Response 200 (Valid ''Invitation code is valid'' emailDomain)
                  \<and> (\<forall>local domain.
                        i_email row = local @ ''@'' @ domain \<and> CHR ''@'' \<notin> set local
                          \<and> CHR ''@'' \<notin> set domain \<longrightarrow> emailDomain = Some domain)
                  \<and> (CHR ''@'' \<notin> set (i_email row) \<longrightarrow> emailDomain = None)))"
    if sel: "select_invitation c d = row # rest" for row rest
  proof -
    have ex: "expired (clock e) row = (\<exists>t. i_expires_at row = Some t \<and> t < clock e)"
      by (auto simp: expired_def split: option.splits)
    have v: "verify_invitation e d (Some c) =
       (if i_used row then Response 409 (NotValid ''Invitation code already used'')
        else if expired (clock e) row then Response 410 (NotValid ''Invitation code has expired'')
        else Response 200 (Valid ''Invitation code is valid''
               (at_index (js_split CHR ''@'' (i_email row)) 1)))"
      using assms sel by (simp add: verify_invitation_def falsy_def)
    show ?thesis
      unfolding v ex [symmetric]
      using email_domain no_email_domain by auto
  qed
  from none some show ?thesis by blast
qed

text \<open>
  The scenario of the spec (a code that expired yesterday), and the three other answers.
\<close>

theorem verify_invitation_statuses_witness:
  "verify_invitation (calm (2592000000 + 86400000)) db_abc (Some ''ABC123'') =
     Response 410 (NotValid ''Invitation code has expired'')
   \<and> verify_invitation (calm 5) db_abc (Some ''ABC123'') =
     Response 200 (Valid ''Invitation code is valid'' (Some ''x.com''))
   \<and> verify_invitation (calm 5) db_spent (Some ''ABC123'') =
     Response 409 (NotValid ''Invitation code already used'')
   \<and> verify_invitation (calm 5) db_abc (Some ''XYZ'') =
     Response 404 (NotValid ''Invalid invitation code'')"
proof -
  have ne: "''ABC123'' \<noteq> []" "''XYZ'' \<noteq> []" by simp_all
  have q: "q_select (calm t) = None" and c: "clock (calm t) = t" for t
    by (simp_all add: calm_def)
  have row: "\<not> i_used abc123" "i_expires_at abc123 = Some 2592000000"
    "i_email abc123 = ''a'' @ ''@'' @ ''x.com''"
    "i_used (mark_used 1 5 abc123)"
    by (simp_all add: abc123_def mark_used_def)
  have absent: "\<forall>row \<in> set (invitation_codes db_abc). i_code row \<noteq> ''XYZ''"
    by (simp add: db_abc_def createTables_def abc123_def)
  have at: "CHR ''@'' \<notin> set ''a''" "CHR ''@'' \<notin> set ''x.com''" by simp_all
  have late: "verify_invitation (calm (2592000000 + 86400000)) db_abc (Some ''ABC123'') =
     Response 410 (NotValid ''Invitation code has expired'')"
    using verify_invitation_statuses [of "''ABC123''" "calm (2592000000 + 86400000)" db_abc]
      select_abc row q c [of "2592000000 + 86400000"] by simp
  have fresh: "verify_invitation (calm 5) db_abc (Some ''ABC123'') =
     Response 200 (Valid ''Invitation code is valid'' (Some ''x.com''))"
  proof -
    from verify_invitation_statuses [of "''ABC123''" "calm 5" db_abc] select_abc row q c [of 5]
    obtain emailDomain where
      v: "verify_invitation (calm 5) db_abc (Some ''ABC123'') =
            Response 200 (Valid ''Invitation code is valid'' emailDomain)"
      and dom: "\<forall>local domain.
            i_email abc123 = local @ ''@'' @ domain \<and> CHR ''@'' \<notin> set local
              \<and> CHR ''@'' \<notin> set domain \<longrightarrow> emailDomain = Some domain"
      by auto
    from dom row(3) at have "emailDomain = Some ''x.com''" by blast
    with v show ?thesis by simp
  qed
  have spent: "verify_invitation (calm 5) db_spent (Some ''ABC123'') =
     Response 409 (NotValid ''Invitation code already used'')"
    using verify_invitation_statuses [of "''ABC123''" "calm 5" db_spent] select_spent row(4) q by simp
  have unknown: "verify_invitation (calm 5) db_abc (Some ''XYZ'') =
     Response 404 (NotValid ''Invalid invitation code'')"
    using verify_invitation_statuses [of "''XYZ''" "calm 5" db_abc] absent q by simp
  from late fresh spent unknown show ?thesis by simp
qed

text \<open>The claim as stated, for every code: no row has the empty code, yet the answer is 400.\<close>

theorem empty_code_is_not_answered_404:
  "select_invitation [] db_abc = []
   \<and> verify_invitation (calm 5) db_abc (Some []) =
       Response 400 (ErrorMsg ''Invitation code required'')"
  by (simp add: select_invitation_def db_abc_def createTables_def abc123_def
      verify_invitation_def falsy_def)

section \<open>The accounts a user sees\<close>

text \<open>
  Claim C10. Whenever \<^verbatim>\<open>GET /api/accounts\<close> answers with a list of accounts, the request
  was authenticated, every account of the list has the subtype \<^verbatim>\<open>investment\<close>,
  \<^verbatim>\<open>brokerage\<close>, \<^verbatim>\<open>ira\<close> or \<^verbatim>\<open>401k\<close>, and the list is exactly what is left of the
  aggregator's answers for the user's linked items, in order, once every account with
  another subtype (or none) is dropped.
\<close>

theorem accounts_are_investment_accounts:
  assumes "get_accounts wire cfg e d authHeader = Response st (Accounts xs)"
  shows "(\<forall>a \<in> set xs.
            subtype a \<in> {Some ''investment'', Some ''brokerage'', Some ''ira'', Some ''401k''})
       \<and> (\<exists>user answers.
            authenticateToken wire cfg (clock e) authHeader = Inr user
          \<and> map (accountsGet e) (select_access_tokens (userId user) d) = map Inr answers
          \<and> xs = filter
                (\<lambda>a. subtype a \<in>
                   {Some ''investment'', Some ''brokerage'', Some ''ira'', Some ''401k''})
                (concat answers))"
proof (cases "authenticateToken wire cfg (clock e) authHeader")
  case (Inl res)
  with assms have "res = Response st (Accounts xs)" by (simp add: get_accounts_def)
  with Inl show ?thesis
    by (auto simp: authenticateToken_cases split: if_splits option.splits)
next
  case (Inr user)
  with assms have h: "accounts_handler e d user = Response st (Accounts xs)"
    by (simp add: get_accounts_def)
  then obtain allAccounts where
    f: "fetch_accounts (accountsGet e) (select_access_tokens (userId user) d) [] = Inr allAccounts"
    and xs: "xs = filter investment_subtype allAccounts"
    by (auto simp: accounts_handler_def split: option.splits sum.splits)
  from fetch_accounts_answers [OF f] obtain answers where
    a: "map (accountsGet e) (select_access_tokens (userId user) d) = map Inr answers"
       "allAccounts = concat answers" by auto
  have "xs = filter
                (\<lambda>a. subtype a \<in>
                   {Some ''investment'', Some ''brokerage'', Some ''ira'', Some ''401k''})
                (concat answers)"
    using xs a(2) investment_subtype_iff by (metis (mono_tags, lifting) filter_cong)
  moreover have "\<forall>a \<in> set xs.
            subtype a \<in> {Some ''investment'', Some ''brokerage'', Some ''ira'', Some ''401k''}"
    using xs investment_subtype_iff by auto
  ultimately show ?thesis using Inr a(1) by blast
qed

text \<open>
  The aggregator returns a brokerage account, a checking account and one without a
  subtype for her linked item; she sees the first.
\<close>

theorem accounts_are_investment_accounts_witness:
  "get_accounts wire0 cfg0 (calm 9) db_linked (Some ''Bearer tok'') =
     Response 200 (Accounts
       [\<lparr>account_id = ''access-token-1'', account_name = ''Brokerage'',
         subtype = Some ''brokerage''\<rparr>])
   \<and> subtype \<lparr>account_id = ''access-token-1'', account_name = ''Brokerage'',
         subtype = Some ''brokerage''\<rparr>
       \<in> {Some ''investment'', Some ''brokerage'', Some ''ira'', Some ''401k''}
   \<and> length (concat (map (\<lambda>t. projr (accountsGet (calm 9) t))
         (select_access_tokens 1 db_linked))) = 3"
proof -
  from accounts_are_investment_accounts [OF accounts_of_alice]
  have "\<forall>a \<in> set [\<lparr>account_id = ''access-token-1'', account_name = ''Brokerage'',
         subtype = Some ''brokerage''\<rparr>].
       subtype a \<in> {Some ''investment'', Some ''brokerage'', Some ''ira'', Some ''401k''}"
    by blast
  then have "subtype \<lparr>account_id = ''access-token-1'', account_name = ''Brokerage'',
         subtype = Some ''brokerage''\<rparr>
       \<in> {Some ''investment'', Some ''brokerage'', Some ''ira'', Some ''401k''}"
    by simp
  moreover have "length (concat (map (\<lambda>t. projr (accountsGet (calm 9) t))
         (select_access_tokens 1 db_linked))) = 3"
    by (simp add: select_access_tokens_def db_linked_def calm_def)
  ultimately show ?thesis using accounts_of_alice by simp
qed

end
